theory Spec2Isabelle
  imports Complex_Main "HOL-Library.Finite_Map"
begin

section \<open>Data model\<close>

text \<open>
  The notebooks handled by \<^verbatim>\<open>nbdime/diffing/notebooks.py\<close> are the Python values that a
  JSON reader produces. A dictionary is a finite map (Python compares dictionaries without
  regard to insertion order), a list is a list, a string is a list of characters.
  Python's \<^verbatim>\<open>bool\<close> is a subclass of \<^verbatim>\<open>int\<close> with \<^verbatim>\<open>True == 1\<close>, so a
  boolean is the integer it equals. With this representation Python's \<^verbatim>\<open>==\<close> on values
  is HOL equality. Floating point numbers are left out of the value type.
\<close>

datatype jvalue =
    JNull
  | JInt int
  | JStr string
  | JList "jvalue list"
  | JDict "(string, jvalue) fmap"

text \<open>The exceptions that the modelled code can raise.\<close>

datatype error = KeyError string | TypeError | IndexError | RuntimeError

text \<open>Sequencing of computations that may raise: the first exception wins.\<close>

definition bind_err :: "error + 'a \<Rightarrow> ('a \<Rightarrow> error + 'b) \<Rightarrow> error + 'b" where
  "bind_err r f = (case r of Inl e \<Rightarrow> Inl e | Inr v \<Rightarrow> f v)"

text \<open>
  \<^verbatim>\<open>x[k]\<close> with a string key: a dictionary without the key raises KeyError, every other
  kind of value raises TypeError (lists and strings want integer indices, integers and
  \<^verbatim>\<open>None\<close> are not subscriptable).
\<close>

fun getitem :: "jvalue \<Rightarrow> string \<Rightarrow> error + jvalue" where
  "getitem (JDict m) k = (case fmlookup m k of None \<Rightarrow> Inl (KeyError k) | Some v \<Rightarrow> Inr v)"
| "getitem _ k = Inl TypeError"

section \<open>Similarity predicates\<close>

text \<open>
  \<^verbatim>\<open>"\n".join(xs)\<close>: the items separated by a newline; an item that is not a string
  raises TypeError.
\<close>

fun join_lines :: "jvalue list \<Rightarrow> error + string" where
  "join_lines [] = Inr []"
| "join_lines [JStr s] = Inr s"
| "join_lines (JStr s # v # vs) =
     bind_err (join_lines (v # vs)) (\<lambda>rest. Inr (s @ CHR 0x0A # rest))"
| "join_lines (_ # vs) = Inl TypeError"

text \<open>
  \<^verbatim>\<open>if isinstance(xs, list): xs = "\n".join(xs)\<close>: a list is joined, any other value is
  kept as it is.
\<close>

fun normalize_source :: "jvalue \<Rightarrow> error + jvalue" where
  "normalize_source (JList ls) = bind_err (join_lines ls) (\<lambda>s. Inr (JStr s))"
| "normalize_source v = Inr v"

text \<open>
  \<^verbatim>\<open>difflib.SequenceMatcher\<close> belongs to the Python standard library, not to the
  repository. It enters the model as a parameter: a function from the two sequences to the
  matcher object, whose three ratio methods are pure functions of the two sequences and are
  therefore fields. Each may raise. The ratios are exact rationals; the library computes
  \<^verbatim>\<open>2.0 * matches / length\<close> in binary floating point.
\<close>

record sequence_matcher =
  real_quick_ratio :: "error + rat"
  quick_ratio :: "error + rat"
  ratio :: "error + rat"

type_synonym difflib = "jvalue \<Rightarrow> jvalue \<Rightarrow> error + sequence_matcher"

text \<open>The library's \<^verbatim>\<open>_calculate_ratio(matches, length)\<close>.\<close>

definition calculate_ratio :: "nat \<Rightarrow> nat \<Rightarrow> rat" where
  "calculate_ratio matches len = (if len \<noteq> 0 then 2 * of_nat matches / of_nat len else 1)"

definition threshold :: rat where
  "threshold = 90 / 100"

definition compare_cell_source_approximate :: "difflib \<Rightarrow> jvalue \<Rightarrow> jvalue \<Rightarrow> error + bool" where
  "compare_cell_source_approximate sm x y =
     bind_err (getitem x ''cell_type'') (\<lambda>xt.
     bind_err (getitem y ''cell_type'') (\<lambda>yt.
     if xt \<noteq> yt then Inr False
     else
       bind_err (getitem x ''source'') (\<lambda>xs0.
       bind_err (getitem y ''source'') (\<lambda>ys0.
       bind_err (normalize_source xs0) (\<lambda>xs.
       bind_err (normalize_source ys0) (\<lambda>ys.
       if xs = ys then Inr True
       else
         bind_err (sm xs ys) (\<lambda>s.
         bind_err (real_quick_ratio s) (\<lambda>r1.
         if r1 < threshold then Inr False
         else
           bind_err (quick_ratio s) (\<lambda>r2.
           if r2 < threshold then Inr False
           else bind_err (ratio s) (\<lambda>r. Inr (r > threshold)))))))))))"

definition compare_cell_source_exact :: "jvalue \<Rightarrow> jvalue \<Rightarrow> error + bool" where
  "compare_cell_source_exact x y =
     bind_err (getitem x ''cell_type'') (\<lambda>xt.
     bind_err (getitem y ''cell_type'') (\<lambda>yt.
     if xt \<noteq> yt then Inr False
     else
       bind_err (getitem x ''source'') (\<lambda>xs.
       bind_err (getitem y ''source'') (\<lambda>ys.
       if xs \<noteq> ys then Inr False else Inr True))))"

definition compare_cell_source_and_outputs :: "jvalue \<Rightarrow> jvalue \<Rightarrow> error + bool" where
  "compare_cell_source_and_outputs x y =
     bind_err (getitem x ''cell_type'') (\<lambda>xt.
     bind_err (getitem y ''cell_type'') (\<lambda>yt.
     if xt \<noteq> yt then Inr False
     else
       bind_err (getitem x ''source'') (\<lambda>xs.
       bind_err (getitem y ''source'') (\<lambda>ys.
       if xs \<noteq> ys then Inr False
       else
         bind_err (getitem x ''cell_type'') (\<lambda>xt'.
         if xt' = JStr ''code'' then
           bind_err (getitem x ''outputs'') (\<lambda>xo.
           bind_err (getitem y ''outputs'') (\<lambda>yo.
           if xo \<noteq> yo then Inr False else Inr True))
         else Inr True)))))"

text \<open>
  A well-formed cell (section 3 of the specification): a dictionary with a
  \<^verbatim>\<open>cell_type\<close>, a \<^verbatim>\<open>source\<close> that is a string or a list of strings and,
  when the type is \<^verbatim>\<open>"code"\<close>, an \<^verbatim>\<open>outputs\<close> field.
\<close>

fun is_str :: "jvalue \<Rightarrow> bool" where
  "is_str (JStr s) = True"
| "is_str _ = False"

fun is_text :: "jvalue \<Rightarrow> bool" where
  "is_text (JStr s) = True"
| "is_text (JList ls) = list_all is_str ls"
| "is_text _ = False"

definition has_key :: "jvalue \<Rightarrow> string \<Rightarrow> bool" where
  "has_key x k = (case getitem x k of Inl e \<Rightarrow> False | Inr v \<Rightarrow> True)"

definition well_formed_cell :: "jvalue \<Rightarrow> bool" where
  "well_formed_cell c =
     (case getitem c ''cell_type'' of
        Inl e \<Rightarrow> False
      | Inr t \<Rightarrow>
          (case getitem c ''source'' of
             Inl e \<Rightarrow> False
           | Inr s \<Rightarrow> is_text s \<and> (if t = JStr ''code'' then has_key c ''outputs'' else True)))"

section \<open>The web server's file name display\<close>

definition truncate_filename :: "string \<Rightarrow> string" where
  "truncate_filename name =
     (let limit = 20 :: nat
      in if length name < limit then name else take (limit - 3) name @ ''...'')"

section \<open>Edit scripts\<close>

text \<open>
  A diff entry is the list \<^verbatim>\<open>[op, key, ...]\<close> of \<^verbatim>\<open>nbdime.dformat\<close>: the six
  operations with their arguments. A key is a dictionary key or a sequence index.
\<close>

datatype key = IKey int | SKey string

datatype entry =
    ADD key jvalue
  | REMOVE key
  | REPLACE key jvalue
  | PATCH key "entry list"
  | SEQINSERT key "jvalue list"
  | SEQDELETE key int

fun entry_key :: "entry \<Rightarrow> key" where
  "entry_key (ADD k v) = k"
| "entry_key (REMOVE k) = k"
| "entry_key (REPLACE k v) = k"
| "entry_key (PATCH k d) = k"
| "entry_key (SEQINSERT k vs) = k"
| "entry_key (SEQDELETE k n) = k"

text \<open>
  The generic differ \<^verbatim>\<open>nbdime.diff\<close> (module \<^verbatim>\<open>diffing/generic.py\<close>) is not among
  the sources; it is a parameter of everything that calls it. It may raise.
\<close>

type_synonym differ = "jvalue \<Rightarrow> jvalue \<Rightarrow> error + entry list"

section \<open>Python sequence operations\<close>

text \<open>\<^verbatim>\<open>xs[i]\<close>: a negative index counts from the end; out of range raises IndexError.\<close>

definition py_index :: "'a list \<Rightarrow> int \<Rightarrow> error + 'a" where
  "py_index xs i =
     (if 0 \<le> i \<and> i < int (length xs) then Inr (xs ! nat i)
      else if i < 0 \<and> - int (length xs) \<le> i then Inr (xs ! nat (i + int (length xs)))
      else Inl IndexError)"

text \<open>
  \<^verbatim>\<open>xs[lo:hi]\<close>: each bound is taken from the end when negative and clamped to the
  list; an empty or inverted range gives the empty list.
\<close>

definition slice_bound :: "nat \<Rightarrow> int \<Rightarrow> nat" where
  "slice_bound n i = (if i < 0 then nat (max 0 (i + int n)) else min n (nat i))"

definition py_slice :: "'a list \<Rightarrow> int \<Rightarrow> int \<Rightarrow> 'a list" where
  "py_slice xs lo hi =
     (let l = slice_bound (length xs) lo; h = slice_bound (length xs) hi
      in take (h - l) (drop l xs))"

text \<open>\<^verbatim>\<open>range(n)\<close>: empty when \<open>n \<le> 0\<close>.\<close>

definition py_range :: "int \<Rightarrow> int list" where
  "py_range n = map int [0..<nat n]"

section \<open>Diffing cell lists\<close>

type_synonym snake = "int \<times> int \<times> int"

type_synonym rect = "int \<times> int \<times> int \<times> int"

type_synonym predicate = "jvalue \<Rightarrow> jvalue \<Rightarrow> error + bool"

text \<open>
  \<^verbatim>\<open>compute_snakes_multilevel\<close> (module \<^verbatim>\<open>diffing/snakes.py\<close>) is not among the
  sources either: a parameter, called with the two cell lists, the rectangle, the predicates
  and the level.
\<close>

type_synonym snake_computer =
  "jvalue list \<Rightarrow> jvalue list \<Rightarrow> rect \<Rightarrow> predicate list \<Rightarrow> int \<Rightarrow> error + snake list"

definition diff_single_cells :: "differ \<Rightarrow> jvalue \<Rightarrow> jvalue \<Rightarrow> error + entry list" where
  "diff_single_cells gdiff a b = gdiff a b"

text \<open>The inner loop \<^verbatim>\<open>for k in range(n)\<close> of \<^verbatim>\<open>diff_cells\<close>.\<close>

fun patch_loop ::
  "differ \<Rightarrow> jvalue list \<Rightarrow> jvalue list \<Rightarrow> int \<Rightarrow> int \<Rightarrow> int list \<Rightarrow> entry list \<Rightarrow> error + entry list"
where
  "patch_loop gdiff a b i j [] di = Inr di"
| "patch_loop gdiff a b i j (k # ks) di =
     bind_err (py_index a (i + k)) (\<lambda>x.
     bind_err (py_index b (j + k)) (\<lambda>y.
     bind_err (diff_single_cells gdiff x y) (\<lambda>cd.
     patch_loop gdiff a b i j ks (if cd \<noteq> [] then di @ [PATCH (IKey (i + k)) cd] else di))))"

text \<open>
  The outer loop \<^verbatim>\<open>for i, j, n in snakes + [(i1, j1, 0)]\<close>, with the list \<^verbatim>\<open>di\<close>
  and the corner \<^verbatim>\<open>i0, j0\<close> as loop state.
\<close>

fun snake_loop ::
  "differ \<Rightarrow> jvalue list \<Rightarrow> jvalue list \<Rightarrow> snake list \<Rightarrow> entry list \<Rightarrow> int \<Rightarrow> int \<Rightarrow> error + entry list"
where
  "snake_loop gdiff a b [] di i0 j0 = Inr di"
| "snake_loop gdiff a b ((i, j, n) # rest) di i0 j0 =
     (let di1 = (if i > i0 then di @ [SEQDELETE (IKey i0) (i - i0)] else di);
          di2 = (if j > j0 then di1 @ [SEQINSERT (IKey i0) (py_slice b j0 j)] else di1)
      in bind_err (patch_loop gdiff a b i j (py_range n) di2) (\<lambda>di3.
         snake_loop gdiff a b rest di3 (i + n) (j + n)))"

text \<open>The second half of \<^verbatim>\<open>diff_cells\<close>, lines 113 to 126: the diff from the snakes.\<close>

definition diff_from_snakes ::
  "differ \<Rightarrow> jvalue list \<Rightarrow> jvalue list \<Rightarrow> snake list \<Rightarrow> error + entry list"
where
  "diff_from_snakes gdiff a b snakes =
     (let i1 = int (length a); j1 = int (length b)
      in snake_loop gdiff a b (snakes @ [(i1, j1, 0)]) [] 0 0)"

definition predicates :: "difflib \<Rightarrow> predicate list" where
  "predicates sm =
     [compare_cell_source_approximate sm, compare_cell_source_exact, compare_cell_source_and_outputs]"

definition diff_cells ::
  "difflib \<Rightarrow> snake_computer \<Rightarrow> differ \<Rightarrow> jvalue list \<Rightarrow> jvalue list \<Rightarrow> error + entry list"
where
  "diff_cells sm compute_snakes_multilevel gdiff a b =
     (let level = int (length (predicates sm)) - 1;
          rect = (0, 0, int (length a), int (length b))
      in bind_err (compute_snakes_multilevel a b rect (predicates sm) level) (\<lambda>snakes.
         diff_from_snakes gdiff a b snakes))"

section \<open>The cell diff builder as the specification words it\<close>

text \<open>
  Section 4.4 of the specification: before each snake, a \<^verbatim>\<open>SEQDELETE\<close> at \<open>i0\<close> of
  the gap length if the gap on the A side is not empty, then a \<^verbatim>\<open>SEQINSERT\<close> at
  \<open>i0\<close> with the slice of B if the gap on the B side is not empty.
\<close>

definition gap_entries :: "jvalue list \<Rightarrow> int \<Rightarrow> int \<Rightarrow> int \<Rightarrow> int \<Rightarrow> entry list" where
  "gap_entries b i0 j0 i j =
     (if i0 < i then [SEQDELETE (IKey i0) (i - i0)] else [])
     @ (if j0 < j then [SEQINSERT (IKey i0) (py_slice b j0 j)] else [])"

text \<open>
  For a matched pair at \<open>(p, q)\<close>: the generic diff of the two cells as a
  \<^verbatim>\<open>PATCH\<close> at the A-side index if it is not empty, nothing otherwise.
\<close>

definition pair_entries :: "differ \<Rightarrow> jvalue list \<Rightarrow> jvalue list \<Rightarrow> int \<Rightarrow> int \<Rightarrow> error + entry list" where
  "pair_entries gdiff a b p q =
     bind_err (py_index a p) (\<lambda>x.
     bind_err (py_index b q) (\<lambda>y.
     bind_err (gdiff x y) (\<lambda>cd.
     Inr (if cd = [] then [] else [PATCH (IKey p) cd]))))"

text \<open>The walk over the snakes from the corner \<open>(i0, j0)\<close>: the pieces of the script, in order.\<close>

fun spec_pieces ::
  "differ \<Rightarrow> jvalue list \<Rightarrow> jvalue list \<Rightarrow> int \<Rightarrow> int \<Rightarrow> snake list \<Rightarrow> (error + entry list) list"
where
  "spec_pieces gdiff a b i0 j0 [] = []"
| "spec_pieces gdiff a b i0 j0 ((i, j, n) # ss) =
     Inr (gap_entries b i0 j0 i j)
     # map (\<lambda>k. pair_entries gdiff a b (i + k) (j + k)) (py_range n)
     @ spec_pieces gdiff a b (i + n) (j + n) ss"

text \<open>The pieces put together; an error in a piece is the error of the whole.\<close>

fun gather :: "(error + 'a list) list \<Rightarrow> error + 'a list" where
  "gather [] = Inr []"
| "gather (p # ps) = bind_err p (\<lambda>xs. bind_err (gather ps) (\<lambda>ys. Inr (xs @ ys)))"

definition spec_cell_script ::
  "differ \<Rightarrow> jvalue list \<Rightarrow> jvalue list \<Rightarrow> snake list \<Rightarrow> error + entry list"
where
  "spec_cell_script gdiff a b snakes =
     gather (spec_pieces gdiff a b 0 0 (snakes @ [(int (length a), int (length b), 0)]))"

text \<open>
  Snakes that are monotonic and do not overlap (section 3): each lies in the rectangle of
  the two lists, and from one snake to a later one both coordinates increase strictly and
  the later snake starts at or after the end of the earlier one.
\<close>

definition monotonic_snakes :: "jvalue list \<Rightarrow> jvalue list \<Rightarrow> snake list \<Rightarrow> bool" where
  "monotonic_snakes a b snakes =
     (list_all (\<lambda>(i, j, n). 0 \<le> i \<and> 0 \<le> j \<and> 0 \<le> n
                  \<and> i + n \<le> int (length a) \<and> j + n \<le> int (length b)) snakes
      \<and> sorted_wrt (\<lambda>(i, j, n) (i', j', n'). i < i' \<and> j < j' \<and> i + n \<le> i' \<and> j + n \<le> j') snakes)"

section \<open>Diffing notebooks\<close>

text \<open>
  \<^verbatim>\<open>d.pop(k)\<close> on a dictionary: the value and the dictionary without the key; KeyError
  when the key is missing.
\<close>

definition pop :: "(string, jvalue) fmap \<Rightarrow> string \<Rightarrow> error + jvalue \<times> (string, jvalue) fmap" where
  "pop d k = (case fmlookup d k of None \<Rightarrow> Inl (KeyError k) | Some v \<Rightarrow> Inr (v, fmdrop k d))"

text \<open>
  The cells of a notebook are a list. On any other value the model stops with TypeError;
  Python would go on with whatever \<^verbatim>\<open>len\<close> and indexing mean for that value.
\<close>

fun as_list :: "jvalue \<Rightarrow> error + jvalue list" where
  "as_list (JList vs) = Inr vs"
| "as_list _ = Inl TypeError"

text \<open>
  \<^verbatim>\<open>diff_notebooks\<close> on the values of the two dictionaries. The copies of the source
  are the values \<open>nba\<close> and \<open>nbb\<close> themselves; what the copies are for is the subject of
  the store model below.
\<close>

definition diff_notebooks ::
  "difflib \<Rightarrow> snake_computer \<Rightarrow> differ \<Rightarrow> (string, jvalue) fmap \<Rightarrow> (string, jvalue) fmap
    \<Rightarrow> error + entry list"
where
  "diff_notebooks sm compute_snakes_multilevel gdiff nba nbb =
     bind_err (pop nba ''cells'') (\<lambda>(acells, nba').
     bind_err (pop nbb ''cells'') (\<lambda>(bcells, nbb').
     bind_err (gdiff (JDict nba') (JDict nbb')) (\<lambda>nbdiff.
     bind_err (as_list acells) (\<lambda>a.
     bind_err (as_list bcells) (\<lambda>b.
     bind_err (diff_cells sm compute_snakes_multilevel gdiff a b) (\<lambda>cdiff.
     Inr (if cdiff \<noteq> [] then nbdiff @ [PATCH (SKey ''cells'') cdiff] else nbdiff)))))))"

subsection \<open>Dictionaries as objects\<close>

text \<open>
  In Python the two arguments are references to dictionary objects, and \<^verbatim>\<open>pop\<close>
  changes the object it is called on. The store holds the dictionary objects; a reference is
  a position in it. \<^verbatim>\<open>copy\<close> allocates a new object with the same items,
  \<^verbatim>\<open>pop\<close> updates the object in place. The values inside a dictionary are shared by
  the copy; nothing in \<^verbatim>\<open>diff_notebooks\<close> writes to them, and the two absent
  collaborators are functions of the values they are given.
\<close>

type_synonym store = "(string, jvalue) fmap list"

definition copy :: "store \<Rightarrow> nat \<Rightarrow> store \<times> nat" where
  "copy h p = (h @ [h ! p], length h)"

definition pop_at :: "store \<Rightarrow> nat \<Rightarrow> string \<Rightarrow> store \<times> (error + jvalue)" where
  "pop_at h p k =
     (case fmlookup (h ! p) k of
        None \<Rightarrow> (h, Inl (KeyError k))
      | Some v \<Rightarrow> (h[p := fmdrop k (h ! p)], Inr v))"

definition diff_notebooks_store ::
  "difflib \<Rightarrow> snake_computer \<Rightarrow> differ \<Rightarrow> store \<Rightarrow> nat \<Rightarrow> nat \<Rightarrow> store \<times> (error + entry list)"
where
  "diff_notebooks_store sm compute_snakes_multilevel gdiff h nba nbb =
     (let (h1, nba') = copy h nba;
          (h2, nbb') = copy h1 nbb;
          (h3, ra) = pop_at h2 nba' ''cells''
      in case ra of
           Inl e \<Rightarrow> (h3, Inl e)
         | Inr acells \<Rightarrow>
             (let (h4, rb) = pop_at h3 nbb' ''cells''
              in case rb of
                   Inl e \<Rightarrow> (h4, Inl e)
                 | Inr bcells \<Rightarrow>
                     (h4,
                      bind_err (gdiff (JDict (h4 ! nba')) (JDict (h4 ! nbb'))) (\<lambda>nbdiff.
                      bind_err (as_list acells) (\<lambda>a.
                      bind_err (as_list bcells) (\<lambda>b.
                      bind_err (diff_cells sm compute_snakes_multilevel gdiff a b) (\<lambda>cdiff.
                      Inr (if cdiff \<noteq> [] then nbdiff @ [PATCH (SKey ''cells'') cdiff]
                           else nbdiff))))))))"

text \<open>A well-formed document: its \<^verbatim>\<open>cells\<close> are a list of well-formed cells.\<close>

definition well_formed_document :: "(string, jvalue) fmap \<Rightarrow> bool" where
  "well_formed_document nb =
     (case fmlookup nb ''cells'' of
        Some (JList cs) \<Rightarrow> list_all well_formed_cell cs
      | _ \<Rightarrow> False)"

section \<open>Contracts of the absent collaborators\<close>

text \<open>
  Modelled from the spec: the generic differ \<^verbatim>\<open>nbdime.diff\<close> (module
  \<^verbatim>\<open>diffing/generic.py\<close>) is missing from the sources. Section 4.2 gives its contract:
  it ``returns an empty Edit Script iff the two values are deeply equal''.
\<close>

definition differ_contract :: "differ \<Rightarrow> bool" where
  "differ_contract gdiff = (\<forall>x y. gdiff x y = Inr [] \<longleftrightarrow> x = y)"

text \<open>
  Modelled from the spec: \<^verbatim>\<open>compute_snakes_multilevel\<close> (module
  \<^verbatim>\<open>diffing/snakes.py\<close>) is missing from the sources. Section 4.3 gives its contract,
  which the definitions from here to \<open>snake_contract\<close> follow sentence by sentence.

  The base case: ``\<open>level < 0\<close> or the rectangle is empty''. A rectangle is the half-open
  range \<open>[i0, i1) \<times> [j0, j1)\<close>.
\<close>

definition rect_empty :: "rect \<Rightarrow> bool" where
  "rect_empty r = (case r of (i0, j0, i1, j1) \<Rightarrow> i1 \<le> i0 \<or> j1 \<le> j0)"

text \<open>The pair \<open>(i, j)\<close> satisfies the predicate: \<open>p(A[i], B[j])\<close> is true.\<close>

definition holds_at :: "predicate \<Rightarrow> jvalue list \<Rightarrow> jvalue list \<Rightarrow> int \<Rightarrow> int \<Rightarrow> bool" where
  "holds_at p a b i j =
     (case py_index a i of
        Inl e \<Rightarrow> False
      | Inr x \<Rightarrow> (case py_index b j of Inl e \<Rightarrow> False | Inr y \<Rightarrow> p x y = Inr True))"

text \<open>
  A ``chain of index pairs \<open>(i, j)\<close> with \<open>i0 \<le> i < i1\<close>, \<open>j0 \<le> j < j1\<close>, strictly
  increasing in both coordinates, each satisfying'' the predicate.
\<close>

definition chain :: "predicate \<Rightarrow> jvalue list \<Rightarrow> jvalue list \<Rightarrow> rect \<Rightarrow> (int \<times> int) list \<Rightarrow> bool" where
  "chain p a b r ps =
     (case r of (i0, j0, i1, j1) \<Rightarrow>
        list_all (\<lambda>(i, j). i0 \<le> i \<and> i < i1 \<and> j0 \<le> j \<and> j < j1 \<and> holds_at p a b i j) ps
        \<and> sorted_wrt (\<lambda>(i, j) (i', j'). i < i' \<and> j < j') ps)"

text \<open>``The maximum-length chain'': no chain of the rectangle is longer.\<close>

definition maximum_chain ::
  "predicate \<Rightarrow> jvalue list \<Rightarrow> jvalue list \<Rightarrow> rect \<Rightarrow> (int \<times> int) list \<Rightarrow> bool"
where
  "maximum_chain p a b r ps = (chain p a b r ps \<and> (\<forall>qs. chain p a b r qs \<longrightarrow> length qs \<le> length ps))"

text \<open>The index pairs that a snake \<open>(i, j, n)\<close> stands for.\<close>

definition snake_pairs :: "snake \<Rightarrow> (int \<times> int) list" where
  "snake_pairs s = (case s of (i, j, n) \<Rightarrow> map (\<lambda>k. (i + k, j + k)) (py_range n))"

text \<open>
  The snakes of one level: the pairs of a maximum-length chain, ``merging adjacent
  consecutive pairs into snakes''. The snakes are not empty. Neither that the runs are merged
  as far as possible nor the tie-break between chains of equal length is asked for: the
  contract is the weaker for it, and what is proved from it holds for every snake computer
  that meets section 4.3.
\<close>

definition level_snakes ::
  "predicate \<Rightarrow> jvalue list \<Rightarrow> jvalue list \<Rightarrow> rect \<Rightarrow> snake list \<Rightarrow> bool"
where
  "level_snakes p a b r found =
     (list_all (\<lambda>(i, j, n). 0 < n) found \<and> maximum_chain p a b r (concat (map snake_pairs found)))"

text \<open>
  ``Recurse into each uncovered sub-rectangle strictly between two consecutive accepted
  snakes (and before the first / after the last) [...] and splice the recursively found
  snakes into the result in index order'': \<open>deeper\<close> is the relation between a rectangle
  and the snakes found in it at the next level.
\<close>

fun fill :: "(rect \<Rightarrow> snake list \<Rightarrow> bool) \<Rightarrow> rect \<Rightarrow> snake list \<Rightarrow> snake list \<Rightarrow> bool" where
  "fill deeper (i0, j0, i1, j1) [] result = deeper (i0, j0, i1, j1) result"
| "fill deeper (i0, j0, i1, j1) ((i, j, n) # found) result =
     (\<exists>gap rest. result = gap @ (i, j, n) # rest
        \<and> deeper (i0, j0, i, j) gap
        \<and> fill deeper (i + n, j + n, i1, j1) found rest)"

text \<open>
  The snakes of \<open>m\<close> levels, that is with \<open>level = m - 1\<close>: none below level 0 or in an
  empty rectangle; otherwise the snakes of \<open>predicates[level]\<close>, with the gaps filled at
  \<open>level - 1\<close>.
\<close>

primrec multilevel_snakes ::
  "predicate list \<Rightarrow> jvalue list \<Rightarrow> jvalue list \<Rightarrow> nat \<Rightarrow> rect \<Rightarrow> snake list \<Rightarrow> bool"
where
  "multilevel_snakes ps a b 0 = (\<lambda>r result. result = [])"
| "multilevel_snakes ps a b (Suc l) =
     (\<lambda>r result.
        if rect_empty r then result = []
        else (\<exists>found. level_snakes (ps ! l) a b r found \<and> fill (multilevel_snakes ps a b l) r found result))"

text \<open>The snake computer returns, at this call, snakes that section 4.3 allows.\<close>

definition snake_contract ::
  "snake_computer \<Rightarrow> predicate list \<Rightarrow> jvalue list \<Rightarrow> jvalue list \<Rightarrow> rect \<Rightarrow> int \<Rightarrow> bool"
where
  "snake_contract csm ps a b r level =
     (\<exists>snakes. csm a b r ps level = Inr snakes
        \<and> multilevel_snakes ps a b (nat (level + 1)) r snakes)"

section \<open>Auxiliary notions\<close>

text \<open>
  The walk of \<^verbatim>\<open>diff_cells\<close> stays in range: from the corner \<open>(i0, j0)\<close>, every
  snake starts at or after the corner, has a length that is not negative and ends inside the
  two lists of lengths \<open>la\<close> and \<open>lb\<close>; the corner then moves to its end.
\<close>

fun in_steps :: "int \<Rightarrow> int \<Rightarrow> int \<Rightarrow> int \<Rightarrow> snake list \<Rightarrow> bool" where
  "in_steps la lb i0 j0 [] = True"
| "in_steps la lb i0 j0 ((i, j, n) # ss) =
     (0 \<le> i0 \<and> 0 \<le> j0 \<and> i0 \<le> i \<and> j0 \<le> j \<and> 0 \<le> n \<and> i + n \<le> la \<and> j + n \<le> lb
      \<and> in_steps la lb (i + n) (j + n) ss)"

text \<open>
  Snakes that follow one another inside a rectangle: each starts at or after the corner
  left by the one before and ends inside the rectangle.
\<close>

fun snakes_in :: "rect \<Rightarrow> snake list \<Rightarrow> bool" where
  "snakes_in (i0, j0, i1, j1) [] = (i0 \<le> i1 \<and> j0 \<le> j1)"
| "snakes_in (i0, j0, i1, j1) ((i, j, n) # ss) =
     (i0 \<le> i \<and> j0 \<le> j \<and> 0 \<le> n \<and> i + n \<le> i1 \<and> j + n \<le> j1
      \<and> snakes_in (i + n, j + n, i1, j1) ss)"

text \<open>Snakes that cover the diagonal from \<open>(c, c)\<close> to \<open>(d, d)\<close> without a gap.\<close>

fun diagonal_cover :: "int \<Rightarrow> int \<Rightarrow> snake list \<Rightarrow> bool" where
  "diagonal_cover c d [] = (c = d)"
| "diagonal_cover c d ((i, j, n) # t) = (i = c \<and> j = c \<and> 0 < n \<and> diagonal_cover (c + n) d t)"

text \<open>
  A matcher object on which all three ratio methods return a number.
\<close>

definition answers :: "error + sequence_matcher \<Rightarrow> bool" where
  "answers r =
     (case r of
        Inl e \<Rightarrow> False
      | Inr m \<Rightarrow> \<not> isl (real_quick_ratio m) \<and> \<not> isl (quick_ratio m) \<and> \<not> isl (ratio m))"

section \<open>Example values\<close>

text \<open>Builders for the cells used as concrete inputs below.\<close>

definition markdown_cell :: "jvalue \<Rightarrow> jvalue" where
  "markdown_cell src = JDict (fmap_of_list [(''cell_type'', JStr ''markdown''), (''source'', src)])"

definition code_cell :: "jvalue \<Rightarrow> jvalue \<Rightarrow> jvalue" where
  "code_cell src outs =
     JDict (fmap_of_list [(''cell_type'', JStr ''code''), (''source'', src), (''outputs'', outs)])"

text \<open>A record with a \<^verbatim>\<open>cell_type\<close> and nothing else.\<close>

definition bare_cell :: "string \<Rightarrow> jvalue" where
  "bare_cell t = JDict (fmap_of_list [(''cell_type'', JStr t)])"

text \<open>
  A sequence matcher that answers the same three ratios on every pair of sequences; it
  stands for the library at inputs whose ratios have been worked out by hand.
\<close>

definition fixed_matcher :: "rat \<Rightarrow> rat \<Rightarrow> rat \<Rightarrow> difflib" where
  "fixed_matcher r1 r2 r =
     (\<lambda>a b. Inr \<lparr>real_quick_ratio = Inr r1, quick_ratio = Inr r2, ratio = Inr r\<rparr>)"

text \<open>
  A differ that meets the contract of section 4.2 in the simplest way: nothing for equal
  values, one \<^verbatim>\<open>REPLACE\<close> otherwise. It stands for the generic differ at concrete inputs.
\<close>

definition stub_differ :: differ where
  "stub_differ x y = Inr (if x = y then [] else [REPLACE (SKey ''value'') y])"

text \<open>A notebook with the given cells.\<close>

definition notebook :: "jvalue list \<Rightarrow> (string, jvalue) fmap" where
  "notebook cs = fmap_of_list [(''nbformat'', JInt 4), (''metadata'', JDict fmempty), (''cells'', JList cs)]"

section \<open>Properties of the similarity predicates\<close>

lemma bind_err_simps:
  "bind_err (Inl e) f = Inl e"
  "bind_err (Inr v) f = f v"
  by (simp_all add: bind_err_def)

lemma getitem_Inr_dict: "getitem x k = Inr v \<Longrightarrow> \<exists>m. x = JDict m \<and> fmlookup m k = Some v"
  by (cases x) (auto split: option.splits)

lemma join_lines_strs: "list_all is_str ls \<Longrightarrow> \<exists>s. join_lines ls = Inr s"
proof (induction ls rule: join_lines.induct)
  case 1
  then show ?case by simp
next
  case (2 s)
  then show ?case by simp
next
  case (3 s v vs)
  then show ?case by (auto simp: bind_err_simps)
qed auto

lemma normalize_source_text:
  assumes "is_text s"
  shows "\<exists>t. normalize_source s = Inr (JStr t)"
proof (cases s)
  case (JList ls)
  with assms obtain t where "join_lines ls = Inr t"
    using join_lines_strs [of ls] by auto
  with JList show ?thesis by (simp add: bind_err_simps)
qed (use assms in auto)

lemmas example_cells = markdown_cell_def code_cell_def bare_cell_def

lemma not_isl_Inr: "\<not> isl r \<Longrightarrow> \<exists>v. r = Inr v"
  by (cases r) auto

lemma getitem_missing:
  assumes "getitem x k' = Inr v" and "\<not> has_key x k"
  shows "getitem x k = Inl (KeyError k)"
proof -
  obtain m where "x = JDict m" using assms(1) getitem_Inr_dict by blast
  with assms(2) show ?thesis by (auto simp: has_key_def split: option.splits)
qed

lemma approximate_types_differ:
  assumes "getitem x ''cell_type'' = Inr tx" and "getitem y ''cell_type'' = Inr ty" and "tx \<noteq> ty"
  shows "compare_cell_source_approximate sm x y = Inr False"
  using assms by (simp add: compare_cell_source_approximate_def bind_err_simps)

lemma exact_types_differ:
  assumes "getitem x ''cell_type'' = Inr tx" and "getitem y ''cell_type'' = Inr ty" and "tx \<noteq> ty"
  shows "compare_cell_source_exact x y = Inr False"
  using assms by (simp add: compare_cell_source_exact_def bind_err_simps)

lemma and_outputs_types_differ:
  assumes "getitem x ''cell_type'' = Inr tx" and "getitem y ''cell_type'' = Inr ty" and "tx \<noteq> ty"
  shows "compare_cell_source_and_outputs x y = Inr False"
  using assms by (simp add: compare_cell_source_and_outputs_def bind_err_simps)

lemma exact_well_formed:
  assumes "well_formed_cell x" and "well_formed_cell y"
  shows "\<exists>b. compare_cell_source_exact x y = Inr b"
  using assms
  by (auto simp: well_formed_cell_def compare_cell_source_exact_def bind_err_simps split: sum.splits)

lemma and_outputs_well_formed:
  assumes "well_formed_cell x" and "well_formed_cell y"
  shows "\<exists>b. compare_cell_source_and_outputs x y = Inr b"
  using assms
  by (auto simp: well_formed_cell_def compare_cell_source_and_outputs_def bind_err_simps has_key_def
      split: sum.splits if_splits)

lemma approximate_well_formed:
  assumes "well_formed_cell x" and "well_formed_cell y"
    and "\<forall>a b. answers (sm (JStr a) (JStr b))"
  shows "\<exists>b. compare_cell_source_approximate sm x y = Inr b"
proof -
  obtain tx sx where x: "getitem x ''cell_type'' = Inr tx" "getitem x ''source'' = Inr sx" "is_text sx"
    using assms(1) by (auto simp: well_formed_cell_def split: sum.splits)
  obtain ty sy where y: "getitem y ''cell_type'' = Inr ty" "getitem y ''source'' = Inr sy" "is_text sy"
    using assms(2) by (auto simp: well_formed_cell_def split: sum.splits)
  obtain nx where nx: "normalize_source sx = Inr (JStr nx)"
    using normalize_source_text [OF x(3)] by blast
  obtain ny where ny: "normalize_source sy = Inr (JStr ny)"
    using normalize_source_text [OF y(3)] by blast
  from assms(3) have "answers (sm (JStr nx) (JStr ny))" by blast
  then obtain m where m0: "sm (JStr nx) (JStr ny) = Inr m"
    and n: "\<not> isl (real_quick_ratio m)" "\<not> isl (quick_ratio m)" "\<not> isl (ratio m)"
    by (cases "sm (JStr nx) (JStr ny)") (auto simp: answers_def)
  from n obtain r1 r2 r where m: "sm (JStr nx) (JStr ny) = Inr m"
    "real_quick_ratio m = Inr r1" "quick_ratio m = Inr r2" "ratio m = Inr r"
    using m0 not_isl_Inr by metis
  show ?thesis
    using x y nx ny m by (auto simp: compare_cell_source_approximate_def bind_err_simps)
qed

lemma approximate_missing_source:
  assumes "getitem x ''cell_type'' = Inr t" and "getitem y ''cell_type'' = Inr t"
    and "\<not> has_key x ''source'' \<or> \<not> has_key y ''source''"
  shows "compare_cell_source_approximate sm x y = Inl (KeyError ''source'')"
proof (cases "has_key x ''source''")
  case False
  then show ?thesis
    using assms(1,2) getitem_missing [OF assms(1) False]
    by (simp add: compare_cell_source_approximate_def bind_err_simps)
next
  case True
  then obtain s where "getitem x ''source'' = Inr s"
    by (auto simp: has_key_def split: sum.splits)
  moreover from True assms(3) have "getitem y ''source'' = Inl (KeyError ''source'')"
    using getitem_missing [OF assms(2)] by blast
  ultimately show ?thesis
    using assms(1,2) by (simp add: compare_cell_source_approximate_def bind_err_simps)
qed

lemma exact_missing_source:
  assumes "getitem x ''cell_type'' = Inr t" and "getitem y ''cell_type'' = Inr t"
    and "\<not> has_key x ''source'' \<or> \<not> has_key y ''source''"
  shows "compare_cell_source_exact x y = Inl (KeyError ''source'')"
proof (cases "has_key x ''source''")
  case False
  then show ?thesis
    using assms(1,2) getitem_missing [OF assms(1) False]
    by (simp add: compare_cell_source_exact_def bind_err_simps)
next
  case True
  then obtain s where "getitem x ''source'' = Inr s"
    by (auto simp: has_key_def split: sum.splits)
  moreover from True assms(3) have "getitem y ''source'' = Inl (KeyError ''source'')"
    using getitem_missing [OF assms(2)] by blast
  ultimately show ?thesis
    using assms(1,2) by (simp add: compare_cell_source_exact_def bind_err_simps)
qed

lemma and_outputs_missing_source:
  assumes "getitem x ''cell_type'' = Inr t" and "getitem y ''cell_type'' = Inr t"
    and "\<not> has_key x ''source'' \<or> \<not> has_key y ''source''"
  shows "compare_cell_source_and_outputs x y = Inl (KeyError ''source'')"
proof (cases "has_key x ''source''")
  case False
  then show ?thesis
    using assms(1,2) getitem_missing [OF assms(1) False]
    by (simp add: compare_cell_source_and_outputs_def bind_err_simps)
next
  case True
  then obtain s where "getitem x ''source'' = Inr s"
    by (auto simp: has_key_def split: sum.splits)
  moreover from True assms(3) have "getitem y ''source'' = Inl (KeyError ''source'')"
    using getitem_missing [OF assms(2)] by blast
  ultimately show ?thesis
    using assms(1,2) by (simp add: compare_cell_source_and_outputs_def bind_err_simps)
qed

lemma and_outputs_missing_outputs:
  assumes "getitem x ''cell_type'' = Inr (JStr ''code'')" and "getitem y ''cell_type'' = Inr (JStr ''code'')"
    and "getitem x ''source'' = Inr s" and "getitem y ''source'' = Inr s"
    and "\<not> has_key x ''outputs'' \<or> \<not> has_key y ''outputs''"
  shows "compare_cell_source_and_outputs x y = Inl (KeyError ''outputs'')"
proof (cases "has_key x ''outputs''")
  case False
  then show ?thesis
    using assms(1-4) getitem_missing [OF assms(1) False]
    by (simp add: compare_cell_source_and_outputs_def bind_err_simps)
next
  case True
  then obtain s where "getitem x ''outputs'' = Inr s"
    by (auto simp: has_key_def split: sum.splits)
  moreover from True assms(5) have "getitem y ''outputs'' = Inl (KeyError ''outputs'')"
    using getitem_missing [OF assms(2)] by blast
  ultimately show ?thesis
    using assms(1-4) by (simp add: compare_cell_source_and_outputs_def bind_err_simps)
qed

lemmas cell_eval = example_cells fmlookup_of_list bind_err_simps has_key_def well_formed_cell_def

lemma ratio_exceeds_threshold:
  assumes "0 < n"
  shows "threshold < calculate_ratio m n \<longleftrightarrow> 9 * n < 20 * m"
proof -
  from assms have pos: "(0::rat) < of_nat n"
    by (simp only: of_nat_0_less_iff)
  have "threshold < calculate_ratio m n \<longleftrightarrow> (9::rat) * of_nat n < 20 * of_nat m"
    using pos assms by (simp add: threshold_def calculate_ratio_def field_simps)
  also have "\<dots> \<longleftrightarrow> (of_nat (9 * n) :: rat) < of_nat (20 * m)"
    by simp
  also have "\<dots> \<longleftrightarrow> 9 * n < 20 * m"
    by (rule of_nat_less_iff)
  finally show ?thesis .
qed

text \<open>
  Claim C3. For well-formed cells the three predicates are ordered by strictness: where
  \<^verbatim>\<open>compare_cell_source_and_outputs\<close> is true \<^verbatim>\<open>compare_cell_source_exact\<close>
  is true, and where that is true \<^verbatim>\<open>compare_cell_source_approximate\<close> is true,
  with any sequence matcher.
\<close>

theorem predicate_monotonicity:
  assumes "well_formed_cell x" and "well_formed_cell y"
  shows "(compare_cell_source_and_outputs x y = Inr True \<longrightarrow> compare_cell_source_exact x y = Inr True)
    \<and> (compare_cell_source_exact x y = Inr True \<longrightarrow> compare_cell_source_approximate sm x y = Inr True)"
proof -
  obtain tx sx where x: "getitem x ''cell_type'' = Inr tx" "getitem x ''source'' = Inr sx" "is_text sx"
    using assms(1) by (auto simp: well_formed_cell_def split: sum.splits)
  obtain ty sy where y: "getitem y ''cell_type'' = Inr ty" "getitem y ''source'' = Inr sy" "is_text sy"
    using assms(2) by (auto simp: well_formed_cell_def split: sum.splits)
  obtain nx where nx: "normalize_source sx = Inr (JStr nx)"
    using normalize_source_text [OF x(3)] by blast
  have first: "compare_cell_source_and_outputs x y = Inr True \<longrightarrow> compare_cell_source_exact x y = Inr True"
    using x y
    by (auto simp: compare_cell_source_and_outputs_def compare_cell_source_exact_def bind_err_simps
        split: if_splits)
  have second: "compare_cell_source_exact x y = Inr True \<longrightarrow> compare_cell_source_approximate sm x y = Inr True"
    using x y nx
    by (auto simp: compare_cell_source_approximate_def compare_cell_source_exact_def bind_err_simps
        split: if_splits)
  from first second show ?thesis by blast
qed

text \<open>A code cell against itself, with a sequence matcher that always raises.\<close>

theorem predicate_monotonicity_witness:
  "well_formed_cell (code_cell (JList [JStr ''x = 1'', JStr ''y = 2'']) (JList []))
   \<and> compare_cell_source_and_outputs
        (code_cell (JList [JStr ''x = 1'', JStr ''y = 2'']) (JList []))
        (code_cell (JList [JStr ''x = 1'', JStr ''y = 2'']) (JList [])) = Inr True
   \<and> compare_cell_source_exact
        (code_cell (JList [JStr ''x = 1'', JStr ''y = 2'']) (JList []))
        (code_cell (JList [JStr ''x = 1'', JStr ''y = 2'']) (JList [])) = Inr True
   \<and> compare_cell_source_approximate (\<lambda>a b. Inl RuntimeError)
        (code_cell (JList [JStr ''x = 1'', JStr ''y = 2'']) (JList []))
        (code_cell (JList [JStr ''x = 1'', JStr ''y = 2'']) (JList [])) = Inr True"
proof -
  have wf: "well_formed_cell (code_cell (JList [JStr ''x = 1'', JStr ''y = 2'']) (JList []))"
    by (simp add: cell_eval)
  have top: "compare_cell_source_and_outputs
        (code_cell (JList [JStr ''x = 1'', JStr ''y = 2'']) (JList []))
        (code_cell (JList [JStr ''x = 1'', JStr ''y = 2'']) (JList [])) = Inr True"
    by (simp add: compare_cell_source_and_outputs_def cell_eval)
  show ?thesis
    using predicate_monotonicity [OF wf wf, of "\<lambda>a b. Inl RuntimeError"] wf top by blast
qed

text \<open>
  Claim C4 says that a predicate answers false, without an exception, on records that
  have a \<^verbatim>\<open>cell_type\<close> and lack another field. The code reads
  \<^verbatim>\<open>x["source"]\<close> and \<^verbatim>\<open>x["outputs"]\<close> unguarded: on two markdown records
  without \<^verbatim>\<open>source\<close>, and on two code records with equal source and without
  \<^verbatim>\<open>outputs\<close>, the lookup raises KeyError.
\<close>

theorem predicates_missing_field_counterexample:
  "compare_cell_source_exact (bare_cell ''markdown'') (bare_cell ''markdown'') = Inl (KeyError ''source'')
   \<and> compare_cell_source_and_outputs (bare_cell ''markdown'') (bare_cell ''markdown'') = Inl (KeyError ''source'')
   \<and> compare_cell_source_and_outputs
        (JDict (fmap_of_list [(''cell_type'', JStr ''code''), (''source'', JStr ''x = 1'')]))
        (JDict (fmap_of_list [(''cell_type'', JStr ''code''), (''source'', JStr ''x = 1'')]))
       = Inl (KeyError ''outputs'')"
  by (simp add: compare_cell_source_exact_def compare_cell_source_and_outputs_def bind_err_simps
      bare_cell_def fmlookup_of_list)

text \<open>
  Claim C4, amended. On two records that are mappings containing \<^verbatim>\<open>cell_type\<close>:
  when the two types differ every predicate returns false, whatever else is missing; when
  both cells are well-formed, every predicate returns a boolean (the approximate one
  provided the sequence matcher answers on strings); when the types are equal and a
  \<^verbatim>\<open>source\<close> is missing every predicate raises \<^verbatim>\<open>KeyError('source')\<close>; and
  on code cells with equal source of which one lacks \<^verbatim>\<open>outputs\<close>,
  \<^verbatim>\<open>compare_cell_source_and_outputs\<close> raises \<^verbatim>\<open>KeyError('outputs')\<close>.
\<close>

theorem predicates_on_mappings:
  assumes "getitem x ''cell_type'' = Inr tx" and "getitem y ''cell_type'' = Inr ty"
  shows
    "(tx \<noteq> ty \<longrightarrow>
        compare_cell_source_approximate sm x y = Inr False
        \<and> compare_cell_source_exact x y = Inr False
        \<and> compare_cell_source_and_outputs x y = Inr False)
     \<and> (well_formed_cell x \<and> well_formed_cell y \<longrightarrow>
          (\<exists>b. compare_cell_source_exact x y = Inr b)
          \<and> (\<exists>b. compare_cell_source_and_outputs x y = Inr b)
          \<and> ((\<forall>a b. answers (sm (JStr a) (JStr b))) \<longrightarrow>
               (\<exists>b. compare_cell_source_approximate sm x y = Inr b)))
     \<and> (tx = ty \<and> (\<not> has_key x ''source'' \<or> \<not> has_key y ''source'') \<longrightarrow>
          compare_cell_source_approximate sm x y = Inl (KeyError ''source'')
          \<and> compare_cell_source_exact x y = Inl (KeyError ''source'')
          \<and> compare_cell_source_and_outputs x y = Inl (KeyError ''source''))
     \<and> (tx = JStr ''code'' \<and> ty = JStr ''code''
          \<and> getitem x ''source'' = Inr s \<and> getitem y ''source'' = Inr s
          \<and> (\<not> has_key x ''outputs'' \<or> \<not> has_key y ''outputs'') \<longrightarrow>
          compare_cell_source_and_outputs x y = Inl (KeyError ''outputs''))"
proof (intro conjI impI)
  assume "tx \<noteq> ty"
  with assms show "compare_cell_source_approximate sm x y = Inr False"
    and "compare_cell_source_exact x y = Inr False"
    and "compare_cell_source_and_outputs x y = Inr False"
    by (rule approximate_types_differ exact_types_differ and_outputs_types_differ)+
next
  assume wf: "well_formed_cell x \<and> well_formed_cell y"
  then show "\<exists>b. compare_cell_source_exact x y = Inr b"
    using exact_well_formed by blast
  from wf show "\<exists>b. compare_cell_source_and_outputs x y = Inr b"
    using and_outputs_well_formed by blast
  assume "\<forall>a b. answers (sm (JStr a) (JStr b))"
  with wf show "\<exists>b. compare_cell_source_approximate sm x y = Inr b"
    using approximate_well_formed by blast
next
  assume h: "tx = ty \<and> (\<not> has_key x ''source'' \<or> \<not> has_key y ''source'')"
  with assms have t: "getitem x ''cell_type'' = Inr ty" "getitem y ''cell_type'' = Inr ty"
    and m: "\<not> has_key x ''source'' \<or> \<not> has_key y ''source''" by simp_all
  show "compare_cell_source_approximate sm x y = Inl (KeyError ''source'')"
    by (rule approximate_missing_source [OF t m])
  show "compare_cell_source_exact x y = Inl (KeyError ''source'')"
    by (rule exact_missing_source [OF t m])
  show "compare_cell_source_and_outputs x y = Inl (KeyError ''source'')"
    by (rule and_outputs_missing_source [OF t m])
next
  assume h: "tx = JStr ''code'' \<and> ty = JStr ''code''
          \<and> getitem x ''source'' = Inr s \<and> getitem y ''source'' = Inr s
          \<and> (\<not> has_key x ''outputs'' \<or> \<not> has_key y ''outputs'')"
  with assms show "compare_cell_source_and_outputs x y = Inl (KeyError ''outputs'')"
    using and_outputs_missing_outputs [of x y s] by simp
qed

text \<open>One pair of records for each of the four cases.\<close>

theorem predicates_on_mappings_witness:
  "compare_cell_source_approximate (fixed_matcher (3 / 4) (3 / 4) (3 / 4)) (bare_cell ''markdown'') (bare_cell ''code'') = Inr False
   \<and> compare_cell_source_exact (bare_cell ''markdown'') (bare_cell ''code'') = Inr False
   \<and> compare_cell_source_and_outputs (bare_cell ''markdown'') (bare_cell ''code'') = Inr False
   \<and> well_formed_cell (code_cell (JStr ''x=1'') (JList []))
   \<and> well_formed_cell (code_cell (JStr ''x = 1'') (JList []))
   \<and> (\<exists>b. compare_cell_source_exact (code_cell (JStr ''x=1'') (JList [])) (code_cell (JStr ''x = 1'') (JList [])) = Inr b)
   \<and> (\<exists>b. compare_cell_source_and_outputs (code_cell (JStr ''x=1'') (JList [])) (code_cell (JStr ''x = 1'') (JList [])) = Inr b)
   \<and> (\<exists>b. compare_cell_source_approximate (fixed_matcher (3 / 4) (3 / 4) (3 / 4))
          (code_cell (JStr ''x=1'') (JList [])) (code_cell (JStr ''x = 1'') (JList [])) = Inr b)
   \<and> compare_cell_source_approximate (fixed_matcher (3 / 4) (3 / 4) (3 / 4)) (bare_cell ''markdown'') (bare_cell ''markdown'')
       = Inl (KeyError ''source'')
   \<and> compare_cell_source_and_outputs
        (JDict (fmap_of_list [(''cell_type'', JStr ''code''), (''source'', JStr ''x = 1'')]))
        (code_cell (JStr ''x = 1'') (JList []))
       = Inl (KeyError ''outputs'')"
proof -
  let ?sm = "fixed_matcher (3 / 4) (3 / 4) (3 / 4)"
  let ?a = "code_cell (JStr ''x=1'') (JList [])"
  let ?b = "code_cell (JStr ''x = 1'') (JList [])"
  let ?c = "JDict (fmap_of_list [(''cell_type'', JStr ''code''), (''source'', JStr ''x = 1'')])"
  have md: "getitem (bare_cell ''markdown'') ''cell_type'' = Inr (JStr ''markdown'')"
    and cd: "getitem (bare_cell ''code'') ''cell_type'' = Inr (JStr ''code'')"
    and ta: "getitem ?a ''cell_type'' = Inr (JStr ''code'')"
    and tb: "getitem ?b ''cell_type'' = Inr (JStr ''code'')"
    and tc: "getitem ?c ''cell_type'' = Inr (JStr ''code'')"
    by (simp_all add: cell_eval)
  have wf: "well_formed_cell ?a" "well_formed_cell ?b"
    by (simp_all add: cell_eval)
  have total: "\<forall>a b. answers (?sm (JStr a) (JStr b))"
    by (simp add: fixed_matcher_def answers_def)
  have differ: "compare_cell_source_approximate ?sm (bare_cell ''markdown'') (bare_cell ''code'') = Inr False
      \<and> compare_cell_source_exact (bare_cell ''markdown'') (bare_cell ''code'') = Inr False
      \<and> compare_cell_source_and_outputs (bare_cell ''markdown'') (bare_cell ''code'') = Inr False"
    using predicates_on_mappings [OF md cd, of ?sm] by simp
  have booleans: "(\<exists>b. compare_cell_source_exact ?a ?b = Inr b)
      \<and> (\<exists>b. compare_cell_source_and_outputs ?a ?b = Inr b)
      \<and> (\<exists>b. compare_cell_source_approximate ?sm ?a ?b = Inr b)"
    using predicates_on_mappings [OF ta tb, of ?sm] wf total by blast
  have "\<not> has_key (bare_cell ''markdown'') ''source''"
    by (simp add: cell_eval)
  then have no_source: "compare_cell_source_approximate ?sm (bare_cell ''markdown'') (bare_cell ''markdown'')
       = Inl (KeyError ''source'')"
    using predicates_on_mappings [OF md md, of ?sm] by blast
  have "\<not> has_key ?c ''outputs''"
    and "getitem ?c ''source'' = Inr (JStr ''x = 1'')"
    and "getitem ?b ''source'' = Inr (JStr ''x = 1'')"
    by (simp_all add: cell_eval)
  then have no_outputs: "compare_cell_source_and_outputs ?c ?b = Inl (KeyError ''outputs'')"
    using predicates_on_mappings [OF tc tb, of ?sm "JStr ''x = 1''"] by blast
  from differ booleans no_source no_outputs wf show ?thesis by blast
qed

text \<open>
  Claim C5. For two cells of equal \<^verbatim>\<open>cell_type\<close> whose sources normalise to the
  texts \<open>xs\<close> and \<open>ys\<close>: equal texts are accepted without asking the sequence
  matcher; for different texts, an estimate below the threshold rejects the pair, and when
  the two estimates are upper bounds of the full ratio, the predicate returns true exactly
  when the full ratio, twice the number of matched characters over the sum of the two
  lengths, is strictly above \<open>0.90\<close>.
\<close>

theorem compare_cell_source_approximate_ratio:
  assumes "getitem x ''cell_type'' = Inr t" and "getitem y ''cell_type'' = Inr t"
    and "getitem x ''source'' = Inr sx" and "getitem y ''source'' = Inr sy"
    and "normalize_source sx = Inr (JStr xs)" and "normalize_source sy = Inr (JStr ys)"
  shows
    "(xs = ys \<longrightarrow> compare_cell_source_approximate sm x y = Inr True)
     \<and> (xs \<noteq> ys \<and> sm (JStr xs) (JStr ys) = Inr m
          \<and> real_quick_ratio m = Inr r1 \<and> quick_ratio m = Inr r2
          \<and> ratio m = Inr (calculate_ratio matches (length xs + length ys)) \<longrightarrow>
          (r1 < threshold \<or> r2 < threshold \<longrightarrow> compare_cell_source_approximate sm x y = Inr False)
          \<and> (calculate_ratio matches (length xs + length ys) \<le> r1
               \<and> calculate_ratio matches (length xs + length ys) \<le> r2 \<longrightarrow>
               compare_cell_source_approximate sm x y
                 = Inr (threshold < calculate_ratio matches (length xs + length ys))
               \<and> (threshold < calculate_ratio matches (length xs + length ys)
                    \<longleftrightarrow> 9 * (length xs + length ys) < 20 * matches)))"
proof (intro conjI impI)
  assume "xs = ys"
  with assms show "compare_cell_source_approximate sm x y = Inr True"
    by (simp add: compare_cell_source_approximate_def bind_err_simps)
next
  assume h: "xs \<noteq> ys \<and> sm (JStr xs) (JStr ys) = Inr m
          \<and> real_quick_ratio m = Inr r1 \<and> quick_ratio m = Inr r2
          \<and> ratio m = Inr (calculate_ratio matches (length xs + length ys))"
  have unfold: "compare_cell_source_approximate sm x y =
      (if r1 < threshold then Inr False
       else if r2 < threshold then Inr False
       else Inr (threshold < calculate_ratio matches (length xs + length ys)))"
    using assms h by (simp add: compare_cell_source_approximate_def bind_err_simps)
  {
    assume "r1 < threshold \<or> r2 < threshold"
    then show "compare_cell_source_approximate sm x y = Inr False"
      by (auto simp: unfold)
  }
  {
    assume ub: "calculate_ratio matches (length xs + length ys) \<le> r1
               \<and> calculate_ratio matches (length xs + length ys) \<le> r2"
    show "compare_cell_source_approximate sm x y
            = Inr (threshold < calculate_ratio matches (length xs + length ys))"
      using ub by (auto simp: unfold)
    from h have "0 < length xs + length ys" by (cases xs; cases ys) auto
    then show "threshold < calculate_ratio matches (length xs + length ys)
        \<longleftrightarrow> 9 * (length xs + length ys) < 20 * matches"
      by (rule ratio_exceeds_threshold)
  }
qed

text \<open>
  Three pairs of markdown cells: texts of 11 and 10 characters sharing 10 (all three ratios
  are \<open>20/21\<close>), \<^verbatim>\<open>"x"\<close> against \<^verbatim>\<open>"yz"\<close> (the first estimate is
  \<open>2/3\<close>), and a string against the list of lines that joins to it, with a matcher
  that always raises.
\<close>

theorem compare_cell_source_approximate_ratio_witness:
  "compare_cell_source_approximate (fixed_matcher (20 / 21) (20 / 21) (20 / 21))
     (markdown_cell (JStr (''abcde'' @ CHR 0x0A # ''fghij'')))
     (markdown_cell (JList [JStr ''abcde'', JStr ''fghi''])) = Inr True
   \<and> threshold < calculate_ratio 10 (length (''abcde'' @ CHR 0x0A # ''fghij'') + length (''abcde'' @ CHR 0x0A # ''fghi''))
   \<and> compare_cell_source_approximate (fixed_matcher (2 / 3) 0 0)
     (markdown_cell (JStr ''x'')) (markdown_cell (JStr ''yz'')) = Inr False
   \<and> compare_cell_source_approximate (\<lambda>a b. Inl RuntimeError)
     (markdown_cell (JStr (''abcde'' @ CHR 0x0A # ''fghi'')))
     (markdown_cell (JList [JStr ''abcde'', JStr ''fghi''])) = Inr True"
proof -
  let ?x = "markdown_cell (JStr (''abcde'' @ CHR 0x0A # ''fghij''))"
  let ?y = "markdown_cell (JList [JStr ''abcde'', JStr ''fghi''])"
  let ?z = "markdown_cell (JStr (''abcde'' @ CHR 0x0A # ''fghi''))"
  let ?sm = "fixed_matcher (20 / 21) (20 / 21) (20 / 21)"
  have tx: "getitem ?x ''cell_type'' = Inr (JStr ''markdown'')"
    and ty: "getitem ?y ''cell_type'' = Inr (JStr ''markdown'')"
    and tz: "getitem ?z ''cell_type'' = Inr (JStr ''markdown'')"
    and sx: "getitem ?x ''source'' = Inr (JStr (''abcde'' @ CHR 0x0A # ''fghij''))"
    and sy: "getitem ?y ''source'' = Inr (JList [JStr ''abcde'', JStr ''fghi''])"
    and sz: "getitem ?z ''source'' = Inr (JStr (''abcde'' @ CHR 0x0A # ''fghi''))"
    by (simp_all add: cell_eval)
  have nx: "normalize_source (JStr (''abcde'' @ CHR 0x0A # ''fghij'')) = Inr (JStr (''abcde'' @ CHR 0x0A # ''fghij''))"
    and ny: "normalize_source (JList [JStr ''abcde'', JStr ''fghi'']) = Inr (JStr (''abcde'' @ CHR 0x0A # ''fghi''))"
    and nz: "normalize_source (JStr (''abcde'' @ CHR 0x0A # ''fghi'')) = Inr (JStr (''abcde'' @ CHR 0x0A # ''fghi''))"
    by (simp_all add: bind_err_simps)
  have r: "calculate_ratio 10 (length (''abcde'' @ CHR 0x0A # ''fghij'') + length (''abcde'' @ CHR 0x0A # ''fghi'')) = 20 / 21"
    by (simp add: calculate_ratio_def)
  have close: "compare_cell_source_approximate ?sm ?x ?y = Inr True
      \<and> threshold < calculate_ratio 10 (length (''abcde'' @ CHR 0x0A # ''fghij'') + length (''abcde'' @ CHR 0x0A # ''fghi''))"
    using compare_cell_source_approximate_ratio [OF tx ty sx sy nx ny,
        of ?sm "\<lparr>real_quick_ratio = Inr (20 / 21), quick_ratio = Inr (20 / 21), ratio = Inr (20 / 21)\<rparr>"
           "20 / 21" "20 / 21" 10] r
    by (simp add: fixed_matcher_def)
  have equal: "compare_cell_source_approximate (\<lambda>a b. Inl RuntimeError) ?z ?y = Inr True"
    using compare_cell_source_approximate_ratio [OF tz ty sz sy nz ny, of "\<lambda>a b. Inl RuntimeError"]
    by simp
  have far: "compare_cell_source_approximate (fixed_matcher (2 / 3) 0 0)
     (markdown_cell (JStr ''x'')) (markdown_cell (JStr ''yz'')) = Inr False"
    using compare_cell_source_approximate_ratio
      [of "markdown_cell (JStr ''x'')" "JStr ''markdown''" "markdown_cell (JStr ''yz'')"
          "JStr ''x''" "JStr ''yz''" "''x''" "''yz''" "fixed_matcher (2 / 3) 0 0"
          "\<lparr>real_quick_ratio = Inr (2 / 3), quick_ratio = Inr 0, ratio = Inr 0\<rparr>"
          "2 / 3" 0 0]
    by (simp add: cell_eval fixed_matcher_def calculate_ratio_def threshold_def)
  from close far equal show ?thesis by blast
qed

text \<open>
  Claim C6. \<^verbatim>\<open>compare_cell_source_exact(x, y)\<close> returns true if and only if both cells
  have a \<^verbatim>\<open>cell_type\<close> and a \<^verbatim>\<open>source\<close>, the two types are equal and the
  two source values, as stored, are equal. The source is not joined: a cell whose source is a
  list of lines does not match a cell whose source is a single string, whatever the lines
  join to.
\<close>

theorem compare_cell_source_exact_raw:
  "(compare_cell_source_exact x y = Inr True \<longleftrightarrow>
      (\<exists>t s. getitem x ''cell_type'' = Inr t \<and> getitem y ''cell_type'' = Inr t
           \<and> getitem x ''source'' = Inr s \<and> getitem y ''source'' = Inr s))
   \<and> (getitem x ''source'' = Inr (JList ls) \<and> getitem y ''source'' = Inr (JStr s)
        \<longrightarrow> compare_cell_source_exact x y \<noteq> Inr True)"
  by (cases "getitem x ''cell_type''"; cases "getitem y ''cell_type''";
      cases "getitem x ''source''"; cases "getitem y ''source''")
     (auto simp: compare_cell_source_exact_def bind_err_simps)

text \<open>The lines \<^verbatim>\<open>["a", "b"]\<close> against the string they join to.\<close>

theorem compare_cell_source_exact_raw_witness:
  "getitem (JDict (fmap_of_list [(''cell_type'', JStr ''markdown''), (''source'', JList [JStr ''a'', JStr ''b''])])) ''source''
     = Inr (JList [JStr ''a'', JStr ''b''])
   \<and> getitem (JDict (fmap_of_list [(''cell_type'', JStr ''markdown''), (''source'', JStr (''a'' @ CHR 0x0A # ''b''))])) ''source''
     = Inr (JStr (''a'' @ CHR 0x0A # ''b''))
   \<and> join_lines [JStr ''a'', JStr ''b''] = Inr (''a'' @ CHR 0x0A # ''b'')
   \<and> compare_cell_source_exact
        (JDict (fmap_of_list [(''cell_type'', JStr ''markdown''), (''source'', JList [JStr ''a'', JStr ''b''])]))
        (JDict (fmap_of_list [(''cell_type'', JStr ''markdown''), (''source'', JStr (''a'' @ CHR 0x0A # ''b''))]))
       \<noteq> Inr True"
  using compare_cell_source_exact_raw
    [of "JDict (fmap_of_list [(''cell_type'', JStr ''markdown''), (''source'', JList [JStr ''a'', JStr ''b''])])"
        "JDict (fmap_of_list [(''cell_type'', JStr ''markdown''), (''source'', JStr (''a'' @ CHR 0x0A # ''b''))])"
        "[JStr ''a'', JStr ''b'']" "''a'' @ CHR 0x0A # ''b''"]
  by (simp add: fmlookup_of_list bind_err_simps)

text \<open>
  Claim C9. For two cells with the same \<^verbatim>\<open>cell_type\<close>, other than
  \<^verbatim>\<open>"code"\<close>, \<^verbatim>\<open>compare_cell_source_and_outputs\<close> returns what
  \<^verbatim>\<open>compare_cell_source_exact\<close> returns: the \<^verbatim>\<open>outputs\<close> field is not
  read, and two such cells with equal source match under the strictest predicate whatever
  their \<^verbatim>\<open>outputs\<close> fields are, present or not.
\<close>

theorem and_outputs_non_code:
  assumes "getitem x ''cell_type'' = Inr t" and "getitem y ''cell_type'' = Inr t"
    and "t \<noteq> JStr ''code''"
  shows "compare_cell_source_and_outputs x y = compare_cell_source_exact x y
    \<and> (getitem x ''source'' = Inr s \<and> getitem y ''source'' = Inr s
         \<longrightarrow> compare_cell_source_and_outputs x y = Inr True)"
  using assms
  by (cases "getitem x ''source''"; cases "getitem y ''source''")
     (auto simp: compare_cell_source_and_outputs_def compare_cell_source_exact_def bind_err_simps)

text \<open>Two markdown cells with the same source; only one has an \<^verbatim>\<open>outputs\<close> field.\<close>

theorem and_outputs_non_code_witness:
  "getitem (markdown_cell (JStr ''# Title'')) ''cell_type'' = Inr (JStr ''markdown'')
   \<and> getitem (JDict (fmap_of_list [(''cell_type'', JStr ''markdown''), (''source'', JStr ''# Title''),
         (''outputs'', JList [JInt 1])])) ''cell_type'' = Inr (JStr ''markdown'')
   \<and> JStr ''markdown'' \<noteq> JStr ''code''
   \<and> compare_cell_source_and_outputs (markdown_cell (JStr ''# Title''))
        (JDict (fmap_of_list [(''cell_type'', JStr ''markdown''), (''source'', JStr ''# Title''),
           (''outputs'', JList [JInt 1])]))
       = Inr True
   \<and> compare_cell_source_exact (markdown_cell (JStr ''# Title''))
        (JDict (fmap_of_list [(''cell_type'', JStr ''markdown''), (''source'', JStr ''# Title''),
           (''outputs'', JList [JInt 1])]))
       = Inr True"
proof -
  have x: "getitem (markdown_cell (JStr ''# Title'')) ''cell_type'' = Inr (JStr ''markdown'')"
    by (simp add: cell_eval)
  have y: "getitem (JDict (fmap_of_list [(''cell_type'', JStr ''markdown''), (''source'', JStr ''# Title''),
         (''outputs'', JList [JInt 1])])) ''cell_type'' = Inr (JStr ''markdown'')"
    by (simp add: cell_eval)
  have t: "JStr ''markdown'' \<noteq> JStr ''code''"
    by simp
  have sx: "getitem (markdown_cell (JStr ''# Title'')) ''source'' = Inr (JStr ''# Title'')"
    by (simp add: cell_eval)
  have sy: "getitem (JDict (fmap_of_list [(''cell_type'', JStr ''markdown''), (''source'', JStr ''# Title''),
         (''outputs'', JList [JInt 1])])) ''source'' = Inr (JStr ''# Title'')"
    by (simp add: cell_eval)
  show ?thesis
    using and_outputs_non_code [OF x y t, of "JStr ''# Title''"] x y t sx sy by metis
qed

section \<open>Properties of the cell diff builder\<close>

lemma bind_err_assoc:
  "bind_err (bind_err r f) g = bind_err r (\<lambda>v. bind_err (f v) g)"
  by (cases r) (simp_all add: bind_err_simps)

lemma bind_err_return: "bind_err r Inr = r"
  by (cases r) (simp_all add: bind_err_simps)

lemma bind_err_Inr_iff:
  "bind_err r f = Inr v \<longleftrightarrow> (\<exists>u. r = Inr u \<and> f u = Inr v)"
  by (cases r) (simp_all add: bind_err_simps)

lemma gather_append:
  "gather (ps @ qs) = bind_err (gather ps) (\<lambda>xs. bind_err (gather qs) (\<lambda>ys. Inr (xs @ ys)))"
proof (induction ps)
  case Nil
  show ?case by (simp add: bind_err_simps bind_err_return)
next
  case (Cons p ps)
  show ?case
  proof (cases p)
    case (Inl e)
    then show ?thesis by (simp add: bind_err_simps)
  next
    case (Inr xs)
    show ?thesis
    proof (cases "gather ps")
      case (Inl e)
      with Inr Cons show ?thesis by (simp add: bind_err_simps)
    next
      case inner: (Inr ys)
      with Inr Cons show ?thesis
        by (cases "gather qs") (simp_all add: bind_err_simps)
    qed
  qed
qed

lemma gather_Cons_Inr:
  "gather (p # ps) = Inr es \<longleftrightarrow> (\<exists>xs ys. p = Inr xs \<and> gather ps = Inr ys \<and> es = xs @ ys)"
  by (auto simp: bind_err_Inr_iff)

lemma gather_append_Inr:
  "gather (ps @ qs) = Inr es \<longleftrightarrow> (\<exists>xs ys. gather ps = Inr xs \<and> gather qs = Inr ys \<and> es = xs @ ys)"
  by (auto simp: gather_append bind_err_Inr_iff)

lemma patch_loop_pieces:
  "patch_loop gdiff a b i j ks di =
     bind_err (gather (map (\<lambda>k. pair_entries gdiff a b (i + k) (j + k)) ks)) (\<lambda>es. Inr (di @ es))"
proof (induction ks arbitrary: di)
  case Nil
  show ?case by (simp add: bind_err_simps)
next
  case (Cons k ks)
  show ?case
  proof (cases "py_index a (i + k)")
    case (Inl e)
    then show ?thesis by (simp add: bind_err_simps pair_entries_def)
  next
    case x: (Inr x)
    show ?thesis
    proof (cases "py_index b (j + k)")
      case (Inl e)
      with x show ?thesis by (simp add: bind_err_simps pair_entries_def)
    next
      case y: (Inr y)
      show ?thesis
      proof (cases "gdiff x y")
        case (Inl e)
        with x y show ?thesis by (simp add: bind_err_simps pair_entries_def diff_single_cells_def)
      next
        case cd: (Inr cd)
        show ?thesis
          using x y cd Cons.IH
          by (cases "gather (map (\<lambda>k. pair_entries gdiff a b (i + k) (j + k)) ks)")
             (simp_all add: bind_err_simps pair_entries_def diff_single_cells_def)
      qed
    qed
  qed
qed

lemma snake_loop_pieces:
  "snake_loop gdiff a b ss di i0 j0 =
     bind_err (gather (spec_pieces gdiff a b i0 j0 ss)) (\<lambda>es. Inr (di @ es))"
proof (induction ss arbitrary: di i0 j0)
  case Nil
  show ?case by (simp add: bind_err_simps)
next
  case (Cons s ss)
  obtain i j n where s: "s = (i, j, n)" by (cases s)
  let ?gap = "gap_entries b i0 j0 i j"
  let ?pairs = "map (\<lambda>k. pair_entries gdiff a b (i + k) (j + k)) (py_range n)"
  have start: "snake_loop gdiff a b (s # ss) di i0 j0 =
      bind_err (patch_loop gdiff a b i j (py_range n) (di @ ?gap))
        (\<lambda>di3. snake_loop gdiff a b ss di3 (i + n) (j + n))"
    by (simp add: s gap_entries_def Let_def)
  show ?case
  proof (cases "gather ?pairs")
    case (Inl e)
    then show ?thesis
      unfolding start by (simp add: s patch_loop_pieces gather_append bind_err_simps)
  next
    case ps: (Inr ps)
    show ?thesis
      unfolding start using ps Cons.IH [of "(di @ ?gap) @ ps" "i + n" "j + n"]
      by (cases "gather (spec_pieces gdiff a b (i + n) (j + n) ss)")
         (simp_all add: s patch_loop_pieces gather_append bind_err_simps)
  qed
qed

text \<open>
  Claim C2. For all cell lists and every snake list, the loop of \<^verbatim>\<open>diff_cells\<close>
  computes the script that section 4.4 describes: it walks the snakes in order from
  \<open>(0, 0)\<close>, with a terminal snake of length 0 at the two lengths appended; before each
  snake it gives a \<^verbatim>\<open>SEQDELETE\<close> at \<open>i0\<close> of the gap length when the gap in A is not
  empty, then a \<^verbatim>\<open>SEQINSERT\<close> at \<open>i0\<close> with the slice of B when the gap in B is not
  empty; for each matched pair it gives a \<^verbatim>\<open>PATCH\<close> at the index in A with the generic
  diff of the two cells exactly when that diff is not empty. Exceptions included: both sides
  raise the same error at the same inputs.
\<close>

theorem diff_from_snakes_walk:
  "diff_from_snakes gdiff a b snakes = spec_cell_script gdiff a b snakes"
  by (simp add: diff_from_snakes_def spec_cell_script_def snake_loop_pieces bind_err_return Let_def)

lemma monotonic_in_steps_aux:
  assumes "list_all (\<lambda>(i, j, n). 0 \<le> i \<and> 0 \<le> j \<and> 0 \<le> n \<and> i + n \<le> la \<and> j + n \<le> lb) ss"
    and "sorted_wrt (\<lambda>(i, j, n) (i', j', n'). i < i' \<and> j < j' \<and> i + n \<le> i' \<and> j + n \<le> j') ss"
    and "\<forall>(i, j, n) \<in> set ss. i0 \<le> i \<and> j0 \<le> j"
    and "0 \<le> i0" and "0 \<le> j0" and "i0 \<le> la" and "j0 \<le> lb"
  shows "in_steps la lb i0 j0 (ss @ [(la, lb, 0)])"
  using assms
proof (induction ss arbitrary: i0 j0)
  case Nil
  then show ?case by simp
next
  case (Cons s ss)
  obtain i j n where s: "s = (i, j, n)" by (cases s)
  from Cons.prems s have here: "0 \<le> i" "0 \<le> j" "0 \<le> n" "i + n \<le> la" "j + n \<le> lb" "i0 \<le> i" "j0 \<le> j"
    by auto
  have later: "\<forall>(i', j', n') \<in> set ss. i + n \<le> i' \<and> j + n \<le> j'"
    using Cons.prems(2) s by auto
  have "in_steps la lb (i + n) (j + n) (ss @ [(la, lb, 0)])"
  proof (rule Cons.IH)
    show "list_all (\<lambda>(i, j, n). 0 \<le> i \<and> 0 \<le> j \<and> 0 \<le> n \<and> i + n \<le> la \<and> j + n \<le> lb) ss"
      using Cons.prems(1) by simp
    show "sorted_wrt (\<lambda>(i, j, n) (i', j', n'). i < i' \<and> j < j' \<and> i + n \<le> i' \<and> j + n \<le> j') ss"
      using Cons.prems(2) by simp
    show "\<forall>(i', j', n') \<in> set ss. i + n \<le> i' \<and> j + n \<le> j'" by (rule later)
  qed (use here in auto)
  with here Cons.prems(4,5) show ?case by (simp add: s)
qed

lemma monotonic_in_steps:
  assumes "monotonic_snakes a b snakes"
  shows "in_steps (int (length a)) (int (length b)) 0 0 (snakes @ [(int (length a), int (length b), 0)])"
proof (rule monotonic_in_steps_aux)
  show "\<forall>(i, j, n) \<in> set snakes. 0 \<le> i \<and> 0 \<le> j"
    using assms by (auto simp: monotonic_snakes_def list_all_iff)
qed (use assms in \<open>auto simp: monotonic_snakes_def\<close>)

lemma pair_entries_keys:
  assumes "pair_entries gdiff a b p q = Inr es"
  shows "es = [] \<or> (\<exists>cd. es = [PATCH (IKey p) cd])"
  using assms by (auto simp: pair_entries_def bind_err_Inr_iff split: if_splits)

lemma pairs_keys:
  assumes "gather (map (\<lambda>k. pair_entries gdiff a b (i + k) (j + k)) ks0) = Inr es"
    and "sorted ks0"
  shows "\<exists>ks. map entry_key es = map IKey ks \<and> sorted ks \<and> set ks \<subseteq> (\<lambda>k. i + k) ` set ks0"
  using assms
proof (induction ks0 arbitrary: es)
  case Nil
  then show ?case by simp
next
  case (Cons k ks0)
  from Cons.prems(1) obtain xs ys where
    xs: "pair_entries gdiff a b (i + k) (j + k) = Inr xs"
    and ys: "gather (map (\<lambda>k. pair_entries gdiff a b (i + k) (j + k)) ks0) = Inr ys"
    and es: "es = xs @ ys"
    by (auto simp: gather_Cons_Inr simp del: gather.simps)
  from Cons.prems(2) have sorted: "sorted ks0" and least: "\<forall>k' \<in> set ks0. k \<le> k'"
    by simp_all
  from Cons.IH [OF ys sorted] obtain ks where
    ks: "map entry_key ys = map IKey ks" "sorted ks" "set ks \<subseteq> (\<lambda>k. i + k) ` set ks0"
    by blast
  from pair_entries_keys [OF xs] show ?case
  proof
    assume "xs = []"
    with es ks show ?thesis by auto
  next
    assume "\<exists>cd. xs = [PATCH (IKey (i + k)) cd]"
    then obtain cd where cd: "xs = [PATCH (IKey (i + k)) cd]" by blast
    have "\<forall>k' \<in> set ks. i + k \<le> k'"
      using ks(3) least by auto
    then have "sorted ((i + k) # ks)" using ks(2) by simp
    moreover have "map entry_key es = map IKey ((i + k) # ks)"
      using es cd ks(1) by simp
    moreover have "set ((i + k) # ks) \<subseteq> (\<lambda>k. i + k) ` set (k # ks0)"
      using ks(3) by auto
    ultimately show ?thesis by blast
  qed
qed

lemma sorted_py_range: "sorted (py_range n)"
  by (simp add: py_range_def sorted_map sorted_wrt_map)

lemma set_py_range: "set (py_range n) = {k. 0 \<le> k \<and> k < n}"
proof -
  have "k \<in> int ` {0..<nat n} \<longleftrightarrow> 0 \<le> k \<and> k < n" for k
  proof
    assume "k \<in> int ` {0..<nat n}"
    then show "0 \<le> k \<and> k < n" by auto
  next
    assume "0 \<le> k \<and> k < n"
    then have "nat k \<in> {0..<nat n}" and "k = int (nat k)" by auto
    then show "k \<in> int ` {0..<nat n}" by blast
  qed
  then show ?thesis by (auto simp: py_range_def)
qed

lemma pieces_keys:
  assumes "in_steps la lb i0 j0 ss"
    and "gather (spec_pieces gdiff a b i0 j0 ss) = Inr es"
  shows "\<exists>ks. map entry_key es = map IKey ks \<and> sorted ks \<and> (\<forall>k \<in> set ks. i0 \<le> k)"
  using assms
proof (induction ss arbitrary: i0 j0 es)
  case Nil
  then show ?case by simp
next
  case (Cons s ss)
  obtain i j n where s: "s = (i, j, n)" by (cases s)
  from Cons.prems(1) s have le: "i0 \<le> i" "0 \<le> n" and rest: "in_steps la lb (i + n) (j + n) ss"
    by simp_all
  from Cons.prems(2) s obtain ps ys where
    ps: "gather (map (\<lambda>k. pair_entries gdiff a b (i + k) (j + k)) (py_range n)) = Inr ps"
    and ys: "gather (spec_pieces gdiff a b (i + n) (j + n) ss) = Inr ys"
    and es: "es = gap_entries b i0 j0 i j @ ps @ ys"
    by (auto simp: gather_Cons_Inr gather_append_Inr simp del: gather.simps)
  obtain gs where gs: "map entry_key (gap_entries b i0 j0 i j) = map IKey gs"
    "set gs \<subseteq> {i0}"
  proof
    show "map entry_key (gap_entries b i0 j0 i j)
      = map IKey ((if i0 < i then [i0] else []) @ (if j0 < j then [i0] else []))"
      by (simp add: gap_entries_def)
    show "set ((if i0 < i then [i0] else []) @ (if j0 < j then [i0] else [])) \<subseteq> {i0}"
      by auto
  qed
  have sorted_gs: "sorted gs"
    using gs(2) by (induction gs) auto
  from pairs_keys [OF ps sorted_py_range] obtain ms where
    ms: "map entry_key ps = map IKey ms" "sorted ms" "set ms \<subseteq> (\<lambda>k. i + k) ` set (py_range n)"
    by blast
  have ms_range: "\<forall>k \<in> set ms. i \<le> k \<and> k < i + n"
    using ms(3) by (auto simp: set_py_range)
  from Cons.IH [OF rest ys] obtain ks where
    ks: "map entry_key ys = map IKey ks" "sorted ks" "\<forall>k \<in> set ks. i + n \<le> k"
    by blast
  have "map entry_key es = map IKey (gs @ ms @ ks)"
    using es gs(1) ms(1) ks(1) by simp
  moreover have "sorted (gs @ ms @ ks)"
    using sorted_gs ms(2) ks(2) gs(2) ms_range ks(3) le
    by (fastforce simp: sorted_append)
  moreover have "\<forall>k \<in> set (gs @ ms @ ks). i0 \<le> k"
    using gs(2) ms_range ks(3) le by fastforce
  ultimately show ?case by blast
qed

lemma py_index_in_range:
  assumes "0 \<le> i" and "i < int (length xs)"
  shows "py_index xs i = Inr (xs ! nat i)"
  using assms by (simp add: py_index_def)

lemma pairs_total:
  assumes "\<forall>x y. \<exists>d. gdiff x y = Inr d"
    and "\<forall>k \<in> set ks0. 0 \<le> i + k \<and> i + k < int (length a) \<and> 0 \<le> j + k \<and> j + k < int (length b)"
  shows "\<exists>es. gather (map (\<lambda>k. pair_entries gdiff a b (i + k) (j + k)) ks0) = Inr es"
  using assms(2)
proof (induction ks0)
  case Nil
  show ?case by simp
next
  case (Cons k ks0)
  then obtain ys where ys: "gather (map (\<lambda>k. pair_entries gdiff a b (i + k) (j + k)) ks0) = Inr ys"
    by auto
  from Cons.prems have x: "py_index a (i + k) = Inr (a ! nat (i + k))"
    and y: "py_index b (j + k) = Inr (b ! nat (j + k))"
    by (simp_all add: py_index_in_range)
  from assms(1) obtain d where "gdiff (a ! nat (i + k)) (b ! nat (j + k)) = Inr d" by blast
  with x y have "\<exists>xs. pair_entries gdiff a b (i + k) (j + k) = Inr xs"
    by (simp add: pair_entries_def bind_err_simps)
  with ys show ?case by (auto simp: gather_Cons_Inr simp del: gather.simps)
qed

lemma pieces_total:
  assumes "\<forall>x y. \<exists>d. gdiff x y = Inr d"
    and "in_steps (int (length a)) (int (length b)) i0 j0 ss"
  shows "\<exists>es. gather (spec_pieces gdiff a b i0 j0 ss) = Inr es"
  using assms(2)
proof (induction ss arbitrary: i0 j0)
  case Nil
  show ?case by simp
next
  case (Cons s ss)
  obtain i j n where s: "s = (i, j, n)" by (cases s)
  from Cons.prems s have b: "0 \<le> i0" "0 \<le> j0" "i0 \<le> i" "j0 \<le> j" "0 \<le> n"
    "i + n \<le> int (length a)" "j + n \<le> int (length b)"
    and rest: "in_steps (int (length a)) (int (length b)) (i + n) (j + n) ss"
    by simp_all
  have "\<forall>k \<in> set (py_range n). 0 \<le> i + k \<and> i + k < int (length a) \<and> 0 \<le> j + k \<and> j + k < int (length b)"
    using b by (auto simp: set_py_range)
  from pairs_total [OF assms(1) this] obtain ps where
    "gather (map (\<lambda>k. pair_entries gdiff a b (i + k) (j + k)) (py_range n)) = Inr ps" by blast
  moreover from Cons.IH [OF rest] obtain ys where
    "gather (spec_pieces gdiff a b (i + n) (j + n) ss) = Inr ys" by blast
  ultimately show ?case
    by (auto simp: s gather_Cons_Inr gather_append_Inr simp del: gather.simps)
qed

text \<open>
  Claim C8. For snakes that are monotonic, do not overlap and lie in the rectangle of the
  two lists, the keys of the script that \<^verbatim>\<open>diff_cells\<close> builds are indices into A in
  ascending order; and with a differ that does not raise, the script is built (no index is
  out of range).
\<close>

theorem diff_from_snakes_ascending:
  assumes "monotonic_snakes a b snakes"
  shows "(\<forall>es. diff_from_snakes gdiff a b snakes = Inr es \<longrightarrow>
            (\<exists>ks. map entry_key es = map IKey ks \<and> sorted ks))
     \<and> ((\<forall>x y. \<exists>d. gdiff x y = Inr d) \<longrightarrow> (\<exists>es. diff_from_snakes gdiff a b snakes = Inr es))"
proof -
  let ?ss = "snakes @ [(int (length a), int (length b), 0)]"
  have steps: "in_steps (int (length a)) (int (length b)) 0 0 ?ss"
    by (rule monotonic_in_steps [OF assms])
  have unfold: "diff_from_snakes gdiff a b snakes = gather (spec_pieces gdiff a b 0 0 ?ss)"
    by (simp add: diff_from_snakes_def snake_loop_pieces bind_err_return Let_def)
  show ?thesis
    unfolding unfold using pieces_keys [OF steps] pieces_total [OF _ steps] by blast
qed

text \<open>Four cells against four, with the snakes \<open>(0, 0, 1)\<close> and \<open>(1, 2, 1)\<close>.\<close>

theorem diff_from_snakes_ascending_witness:
  "monotonic_snakes
     [markdown_cell (JStr ''a''), markdown_cell (JStr ''b''), markdown_cell (JStr ''c''), markdown_cell (JStr ''d'')]
     [markdown_cell (JStr ''a''), markdown_cell (JStr ''x''), markdown_cell (JStr ''B''), markdown_cell (JStr ''y'')]
     [(0, 0, 1), (1, 2, 1)]
   \<and> (\<exists>es ks. diff_from_snakes stub_differ
     [markdown_cell (JStr ''a''), markdown_cell (JStr ''b''), markdown_cell (JStr ''c''), markdown_cell (JStr ''d'')]
     [markdown_cell (JStr ''a''), markdown_cell (JStr ''x''), markdown_cell (JStr ''B''), markdown_cell (JStr ''y'')]
     [(0, 0, 1), (1, 2, 1)] = Inr es \<and> map entry_key es = map IKey ks \<and> sorted ks)"
proof -
  let ?a = "[markdown_cell (JStr ''a''), markdown_cell (JStr ''b''), markdown_cell (JStr ''c''), markdown_cell (JStr ''d'')]"
  let ?b = "[markdown_cell (JStr ''a''), markdown_cell (JStr ''x''), markdown_cell (JStr ''B''), markdown_cell (JStr ''y'')]"
  have mono: "monotonic_snakes ?a ?b [(0, 0, 1), (1, 2, 1)]"
    by (simp add: monotonic_snakes_def)
  have total: "\<forall>x y. \<exists>d. stub_differ x y = Inr d"
    by (simp add: stub_differ_def)
  from diff_from_snakes_ascending [OF mono, of stub_differ] total mono show ?thesis
    by blast
qed

text \<open>The script at that input: keys 1, 1, 2, 2.\<close>

lemma diff_from_snakes_example:
  "diff_from_snakes stub_differ
     [markdown_cell (JStr ''a''), markdown_cell (JStr ''b''), markdown_cell (JStr ''c''), markdown_cell (JStr ''d'')]
     [markdown_cell (JStr ''a''), markdown_cell (JStr ''x''), markdown_cell (JStr ''B''), markdown_cell (JStr ''y'')]
     [(0, 0, 1), (1, 2, 1)]
   = Inr [SEQINSERT (IKey 1) [markdown_cell (JStr ''x'')],
          PATCH (IKey 1) [REPLACE (SKey ''value'') (markdown_cell (JStr ''B''))],
          SEQDELETE (IKey 2) 2,
          SEQINSERT (IKey 2) [markdown_cell (JStr ''y'')]]"
proof -
  have "getitem (markdown_cell (JStr ''b'')) ''source'' \<noteq> getitem (markdown_cell (JStr ''B'')) ''source''"
    by (simp add: markdown_cell_def fmlookup_of_list)
  then have ne: "markdown_cell (JStr ''b'') \<noteq> markdown_cell (JStr ''B'')"
    by auto
  show ?thesis
    by (simp add: diff_from_snakes_def py_range_def py_index_def py_slice_def slice_bound_def
        diff_single_cells_def stub_differ_def bind_err_simps ne)
qed

section \<open>Properties of the notebook differ\<close>

text \<open>The store model returns what the model on values returns.\<close>

lemma diff_notebooks_store_result:
  assumes "nba < length h" and "nbb < length h"
  shows "snd (diff_notebooks_store sm csm gdiff h nba nbb) = diff_notebooks sm csm gdiff (h ! nba) (h ! nbb)"
  using assms
  by (auto simp: diff_notebooks_store_def diff_notebooks_def copy_def pop_at_def pop_def
      bind_err_simps nth_append Let_def split: option.splits sum.splits)

text \<open>
  The copies are what keeps the arguments intact: \<^verbatim>\<open>pop\<close> on the object itself
  removes the key from it.
\<close>

lemma pop_at_changes:
  assumes "p < length h" and "fmlookup (h ! p) k = Some v"
  shows "fmlookup (fst (pop_at h p k) ! p) k = None"
  using assms by (simp add: pop_at_def)

text \<open>
  Claim C7. \<^verbatim>\<open>diff_notebooks\<close> does not change its arguments: for two references into
  the store to dictionaries that contain \<^verbatim>\<open>cells\<close>, after the call both objects are
  what they were, \<^verbatim>\<open>cells\<close> included, and so is every other object that existed
  before the call. The two references may be the same.
\<close>

theorem diff_notebooks_keeps_inputs:
  assumes "nba < length h" and "nbb < length h"
    and "fmlookup (h ! nba) ''cells'' = Some acells" and "fmlookup (h ! nbb) ''cells'' = Some bcells"
  shows "fst (diff_notebooks_store sm csm gdiff h nba nbb) ! nba = h ! nba
     \<and> fst (diff_notebooks_store sm csm gdiff h nba nbb) ! nbb = h ! nbb
     \<and> fmlookup (fst (diff_notebooks_store sm csm gdiff h nba nbb) ! nba) ''cells'' = Some acells
     \<and> fmlookup (fst (diff_notebooks_store sm csm gdiff h nba nbb) ! nbb) ''cells'' = Some bcells
     \<and> (\<forall>p < length h. fst (diff_notebooks_store sm csm gdiff h nba nbb) ! p = h ! p)"
proof -
  have frame: "fst (diff_notebooks_store sm csm gdiff h nba nbb) ! p = h ! p" if "p < length h" for p
    using that assms
    by (auto simp: diff_notebooks_store_def copy_def pop_at_def nth_append Let_def
        split: option.splits sum.splits)
  with assms show ?thesis by simp
qed

text \<open>A store of two notebooks, diffed against each other.\<close>

theorem diff_notebooks_keeps_inputs_witness:
  "(0::nat) < length [notebook [markdown_cell (JStr ''a'')], notebook []]
   \<and> (1::nat) < length [notebook [markdown_cell (JStr ''a'')], notebook []]
   \<and> fmlookup ([notebook [markdown_cell (JStr ''a'')], notebook []] ! 0) ''cells'' = Some (JList [markdown_cell (JStr ''a'')])
   \<and> fmlookup ([notebook [markdown_cell (JStr ''a'')], notebook []] ! 1) ''cells'' = Some (JList [])
   \<and> fst (diff_notebooks_store (\<lambda>a b. Inl RuntimeError) (\<lambda>a b r ps l. Inr []) stub_differ
            [notebook [markdown_cell (JStr ''a'')], notebook []] 0 1) ! 0 = notebook [markdown_cell (JStr ''a'')]
   \<and> fst (diff_notebooks_store (\<lambda>a b. Inl RuntimeError) (\<lambda>a b r ps l. Inr []) stub_differ
            [notebook [markdown_cell (JStr ''a'')], notebook []] 0 1) ! 1 = notebook []"
proof -
  let ?h = "[notebook [markdown_cell (JStr ''a'')], notebook []]"
  have a: "(0::nat) < length ?h" and b: "(1::nat) < length ?h" by simp_all
  have ca: "fmlookup (?h ! 0) ''cells'' = Some (JList [markdown_cell (JStr ''a'')])"
    and cb: "fmlookup (?h ! 1) ''cells'' = Some (JList [])"
    by (simp_all add: notebook_def fmlookup_of_list)
  from diff_notebooks_keeps_inputs [OF a b ca cb, of "\<lambda>a b. Inl RuntimeError" "\<lambda>a b r ps l. Inr []" stub_differ]
    a b ca cb
  show ?thesis by simp
qed

section \<open>The empty script and equal documents\<close>

subsection \<open>Chains of the full diagonal\<close>

text \<open>
  A strictly increasing list of integers in \<open>[lo, hi)\<close> has at most \<open>hi - lo\<close>
  elements, and one with as many elements as its range has is the range.
\<close>

lemma increasing_length:
  fixes xs :: "int list"
  assumes "sorted_wrt (<) xs" and "\<forall>x \<in> set xs. lo \<le> x \<and> x < hi" and "lo \<le> hi"
  shows "int (length xs) \<le> hi - lo"
  using assms
proof (induction xs arbitrary: lo)
  case Nil
  then show ?case by simp
next
  case (Cons x xs)
  have "int (length xs) \<le> hi - (x + 1)"
  proof (rule Cons.IH)
    show "sorted_wrt (<) xs" using Cons.prems(1) by simp
    show "\<forall>y \<in> set xs. x + 1 \<le> y \<and> y < hi" using Cons.prems(1,2) by auto
    show "x + 1 \<le> hi" using Cons.prems(2) by simp
  qed
  moreover have "lo \<le> x" using Cons.prems(2) by simp
  ultimately show ?case by simp
qed

lemma increasing_full:
  fixes xs :: "int list"
  assumes "sorted_wrt (<) xs" and "\<forall>x \<in> set xs. lo \<le> x \<and> x < lo + int (length xs)"
  shows "xs = map (\<lambda>k. lo + int k) [0..<length xs]"
  using assms
proof (induction xs arbitrary: lo)
  case Nil
  then show ?case by simp
next
  case (Cons x xs)
  have sorted: "sorted_wrt (<) xs" using Cons.prems(1) by simp
  have above: "\<forall>y \<in> set xs. x + 1 \<le> y \<and> y < lo + int (length xs) + 1"
    using Cons.prems(1,2) by auto
  have lo_x: "lo \<le> x" and x_hi: "x < lo + int (length xs) + 1"
    using Cons.prems(2) by simp_all
  have "int (length xs) \<le> (lo + int (length xs) + 1) - (x + 1)"
    by (rule increasing_length [OF sorted above]) (use x_hi in simp)
  with lo_x have x: "x = lo" by simp
  have "xs = map (\<lambda>k. (lo + 1) + int k) [0..<length xs]"
  proof (rule Cons.IH [OF sorted])
    show "\<forall>y \<in> set xs. lo + 1 \<le> y \<and> y < lo + 1 + int (length xs)"
      using above x by fastforce
  qed
  moreover have "(\<lambda>k. (lo + 1) + int k) = (\<lambda>k. lo + int (Suc k))"
    by (rule ext) simp
  ultimately have "xs = map (\<lambda>k. lo + int (Suc k)) [0..<length xs]"
    by (simp only:)
  then have "x # xs = lo # map (\<lambda>k. lo + int (Suc k)) [0..<length xs]"
    using x by (simp only:)
  also have "\<dots> = map (\<lambda>k. lo + int k) [0..<Suc (length xs)]"
    by (simp add: map_upt_Suc del: upt_Suc)
  finally show ?case by simp
qed

lemma sorted_wrt_fst:
  assumes "sorted_wrt (\<lambda>(i, j) (i', j'). i < i' \<and> j < j') (ps :: (int \<times> int) list)"
  shows "sorted_wrt (<) (map fst ps)" and "sorted_wrt (<) (map snd ps)"
proof -
  show "sorted_wrt (<) (map fst ps)"
    unfolding sorted_wrt_map by (rule sorted_wrt_mono_rel [OF _ assms]) auto
  show "sorted_wrt (<) (map snd ps)"
    unfolding sorted_wrt_map by (rule sorted_wrt_mono_rel [OF _ assms]) auto
qed

lemma chain_length:
  assumes "chain p a b (i0, j0, i1, j1) ps" and "i0 \<le> i1"
  shows "int (length ps) \<le> i1 - i0"
proof -
  have "int (length (map fst ps)) \<le> i1 - i0"
  proof (rule increasing_length)
    show "sorted_wrt (<) (map fst ps)"
      using assms(1) sorted_wrt_fst(1) by (simp add: chain_def)
    show "\<forall>x \<in> set (map fst ps). i0 \<le> x \<and> x < i1"
      using assms(1) by (auto simp: chain_def list_all_iff)
  qed (rule assms(2))
  then show ?thesis by simp
qed

lemma chain_full_diagonal:
  assumes "chain p a b (c, c, c + int m, c + int m) ps" and "m \<le> length ps"
  shows "ps = map (\<lambda>k. (c + int k, c + int k)) [0..<m]"
proof -
  have "int (length ps) \<le> (c + int m) - c"
    by (rule chain_length [OF assms(1)]) simp
  with assms(2) have len: "length ps = m" by simp
  have f: "map fst ps = map (\<lambda>k. c + int k) [0..<length (map fst ps)]"
  proof (rule increasing_full)
    show "sorted_wrt (<) (map fst ps)"
      using assms(1) sorted_wrt_fst(1) by (simp add: chain_def)
    show "\<forall>x \<in> set (map fst ps). c \<le> x \<and> x < c + int (length (map fst ps))"
      using assms(1) len by (auto simp: chain_def list_all_iff)
  qed
  have s: "map snd ps = map (\<lambda>k. c + int k) [0..<length (map snd ps)]"
  proof (rule increasing_full)
    show "sorted_wrt (<) (map snd ps)"
      using assms(1) sorted_wrt_fst(2) by (simp add: chain_def)
    show "\<forall>x \<in> set (map snd ps). c \<le> x \<and> x < c + int (length (map snd ps))"
      using assms(1) len by (auto simp: chain_def list_all_iff)
  qed
  have "ps = zip (map fst ps) (map snd ps)"
    by (simp add: zip_map_fst_snd)
  also have "\<dots> = zip (map (\<lambda>k. c + int k) [0..<m]) (map (\<lambda>k. c + int k) [0..<m])"
    using f s len by simp
  also have "\<dots> = map (\<lambda>k. (c + int k, c + int k)) [0..<m]"
    by (simp add: zip_map_map zip_same_conv_map)
  finally show ?thesis .
qed

text \<open>The strictest predicate is true of a well-formed cell and itself.\<close>

lemma and_outputs_refl:
  assumes "well_formed_cell c"
  shows "compare_cell_source_and_outputs c c = Inr True"
  using assms
  by (auto simp: well_formed_cell_def compare_cell_source_and_outputs_def bind_err_simps has_key_def
      split: sum.splits if_splits)

lemma diagonal_chain:
  assumes "\<forall>x \<in> set a. p x x = Inr True"
  shows "chain p a a (0, 0, int (length a), int (length a)) (map (\<lambda>k. (int k, int k)) [0..<length a])"
proof -
  have "holds_at p a a (int k) (int k)" if "k < length a" for k
    using that assms by (simp add: holds_at_def py_index_in_range)
  moreover have "sorted_wrt (\<lambda>(i, j) (i', j'). i < i' \<and> j < j') (map (\<lambda>k. (int k, int k)) [0..<length a])"
    by (simp add: sorted_wrt_map sorted_wrt_upt [unfolded sorted_wrt_iff_nth_less] sorted_wrt_iff_nth_less)
  ultimately show ?thesis
    by (simp add: chain_def list_all_iff)
qed

subsection \<open>What the contract gives for identical cell lists\<close>

lemma snake_pairs_upt:
  "snake_pairs (i, j, n) = map (\<lambda>k. (i + int k, j + int k)) [0..<nat n]"
  by (simp add: snake_pairs_def py_range_def comp_def)

lemma upt_split:
  assumes "q \<le> m"
  shows "map f [0..<m] = map f [0..<q] @ map (\<lambda>k. f (q + k)) [0..<m - q]"
proof -
  have "[0..<q + (m - q)] = [0..<q] @ [q..<q + (m - q)]"
    by (rule upt_add_eq_append) simp
  with assms have "[0..<m] = [0..<q] @ [q..<m]"
    by simp
  moreover have "map (\<lambda>k. k + q) [0..<m - q] = [q..<m - q + q]"
    by (rule map_add_upt)
  then have "[q..<m] = map (\<lambda>k. q + k) [0..<m - q]"
    using assms by (simp add: add.commute)
  ultimately show ?thesis by (simp add: comp_def)
qed

lemma cover_from_pairs:
  assumes "list_all (\<lambda>(i, j, n). 0 < n) found"
    and "concat (map snake_pairs found) = map (\<lambda>k. (c + int k, c + int k)) [0..<m]"
  shows "diagonal_cover c (c + int m) found"
  using assms
proof (induction found arbitrary: c m)
  case Nil
  then show ?case by simp
next
  case (Cons s t)
  obtain i j n where s: "s = (i, j, n)" by (cases s)
  from Cons.prems(1) s have n: "0 < n" and t: "list_all (\<lambda>(i, j, n). 0 < n) t"
    by simp_all
  let ?g = "\<lambda>k. (c + int k, c + int k)"
  let ?q = "nat n"
  have eq: "map (\<lambda>k. (i + int k, j + int k)) [0..<?q] @ concat (map snake_pairs t) = map ?g [0..<m]"
    using Cons.prems(2) by (simp add: s snake_pairs_upt)
  then have "length (map (\<lambda>k. (i + int k, j + int k)) [0..<?q] @ concat (map snake_pairs t))
      = length (map ?g [0..<m])" by (simp only:)
  then have q_le: "?q \<le> m" by simp
  have split: "map ?g [0..<m] = map ?g [0..<?q] @ map (\<lambda>k. ?g (?q + k)) [0..<m - ?q]"
    by (rule upt_split [OF q_le])
  from eq split have both: "map (\<lambda>k. (i + int k, j + int k)) [0..<?q] = map ?g [0..<?q]"
    and rest: "concat (map snake_pairs t) = map (\<lambda>k. ?g (?q + k)) [0..<m - ?q]"
    by simp_all
  have "0 < ?q" using n by simp
  then have "0 \<in> set [0..<?q]" by simp
  with both have "(i + int 0, j + int 0) = ?g 0"
    by (metis (no_types, lifting) map_eq_conv)
  then have ij: "i = c" "j = c" by simp_all
  have "(\<lambda>k. ?g (?q + k)) = (\<lambda>k. ((c + n) + int k, (c + n) + int k))"
    using n by (intro ext) simp
  with rest have "concat (map snake_pairs t) = map (\<lambda>k. ((c + n) + int k, (c + n) + int k)) [0..<m - ?q]"
    by (simp only:)
  from Cons.IH [OF t this] have "diagonal_cover (c + n) ((c + n) + int (m - ?q)) t" .
  moreover have "(c + n) + int (m - ?q) = c + int m"
    using q_le n by simp
  ultimately show ?case using ij n by (simp add: s)
qed

lemma multilevel_snakes_empty:
  assumes "rect_empty r" and "multilevel_snakes ps a b l r result"
  shows "result = []"
  using assms by (cases l) simp_all

lemma fill_cover:
  assumes "diagonal_cover c d found"
    and "\<And>r result. rect_empty r \<Longrightarrow> deeper r result \<Longrightarrow> result = []"
    and "fill deeper (c, c, d, d) found result"
  shows "result = found"
  using assms(1,3)
proof (induction found arbitrary: c result)
  case Nil
  then have "deeper (c, c, c, c) result" by simp
  moreover have "rect_empty (c, c, c, c)" by (simp add: rect_empty_def)
  ultimately show ?case using assms(2) by blast
next
  case (Cons s t)
  obtain i j n where s: "s = (i, j, n)" by (cases s)
  from Cons.prems(1) s have ij: "i = c" "j = c" and t: "diagonal_cover (c + n) d t"
    by simp_all
  from Cons.prems(2) s ij obtain gap rest where
    result: "result = gap @ (c, c, n) # rest"
    and gap: "deeper (c, c, c, c) gap"
    and rest: "fill deeper (c + n, c + n, d, d) t rest"
    by auto
  have "rect_empty (c, c, c, c)" by (simp add: rect_empty_def)
  with gap assms(2) have "gap = []" by blast
  moreover from Cons.IH [OF t rest] have "rest = t" .
  ultimately show ?case using result s ij by simp
qed

lemma diagonal_cover_le: "diagonal_cover c d found \<Longrightarrow> c \<le> d"
proof (induction found arbitrary: c)
  case Nil
  then show ?case by simp
next
  case (Cons s t)
  obtain i j n where s: "s = (i, j, n)" by (cases s)
  from Cons.prems s have "0 < n" and "diagonal_cover (c + n) d t" by simp_all
  with Cons.IH [of "c + n"] show ?case by simp
qed

lemma gather_all_empty:
  assumes "\<forall>p \<in> set ps. p = Inr []"
  shows "gather ps = Inr []"
  using assms by (induction ps) (simp_all add: bind_err_simps)

lemma pair_entries_same:
  assumes "gdiff (a ! nat p) (a ! nat p) = Inr []" and "0 \<le> p" and "p < int (length a)"
  shows "pair_entries gdiff a a p p = Inr []"
  using assms by (simp add: pair_entries_def py_index_in_range bind_err_simps)

lemma walk_cover:
  assumes "\<forall>x. gdiff x x = Inr []"
    and "diagonal_cover c (int (length a)) found" and "0 \<le> c"
  shows "gather (spec_pieces gdiff a a c c (found @ [(int (length a), int (length a), 0)])) = Inr []"
  using assms(2,3)
proof (induction found arbitrary: c)
  case Nil
  then show ?case
    by (simp add: gap_entries_def py_range_def bind_err_simps)
next
  case (Cons s t)
  obtain i j n where s: "s = (i, j, n)" by (cases s)
  from Cons.prems(1) s have ij: "i = c" "j = c" and n: "0 < n"
    and t: "diagonal_cover (c + n) (int (length a)) t"
    by simp_all
  from diagonal_cover_le [OF t] have bound: "c + n \<le> int (length a)" .
  have "\<forall>k \<in> set (py_range n). pair_entries gdiff a a (c + k) (c + k) = Inr []"
  proof
    fix k assume "k \<in> set (py_range n)"
    then have "0 \<le> k" "k < n" by (simp_all add: set_py_range)
    with bound Cons.prems(2) show "pair_entries gdiff a a (c + k) (c + k) = Inr []"
      using assms(1) by (intro pair_entries_same) auto
  qed
  then have pairs: "gather (map (\<lambda>k. pair_entries gdiff a a (c + k) (c + k)) (py_range n)) = Inr []"
    by (intro gather_all_empty) auto
  have rest: "gather (spec_pieces gdiff a a (c + n) (c + n) (t @ [(int (length a), int (length a), 0)])) = Inr []"
    by (rule Cons.IH [OF t]) (use Cons.prems(2) n in simp)
  have "gap_entries a c c c c = []" by (simp add: gap_entries_def)
  with pairs rest show ?case
    by (simp add: s ij gather_append bind_err_simps)
qed

text \<open>
  On a list of cells against itself, with a top-level predicate that is true of every cell
  and itself, the contract allows only snakes that cover the diagonal without a gap.
\<close>

lemma identical_cells_snakes:
  assumes "\<forall>x \<in> set a. p x x = Inr True"
    and "multilevel_snakes ps a a (Suc l) (0, 0, int (length a), int (length a)) snakes"
    and "ps ! l = p"
  shows "diagonal_cover 0 (int (length a)) snakes"
proof (cases "a = []")
  case True
  then have "rect_empty (0, 0, int (length a), int (length a))" by (simp add: rect_empty_def)
  from multilevel_snakes_empty [OF this assms(2)] True show ?thesis by simp
next
  case False
  let ?r = "(0, 0, int (length a), int (length a))"
  from False have "\<not> rect_empty ?r" by (simp add: rect_empty_def)
  with assms(2,3) obtain found where
    found: "level_snakes p a a ?r found"
    and fill: "fill (multilevel_snakes ps a a l) ?r found snakes"
    by auto
  let ?ps = "concat (map snake_pairs found)"
  from found have positive: "list_all (\<lambda>(i, j, n). 0 < n) found"
    and chain: "chain p a a ?r ?ps"
    and longest: "\<forall>qs. chain p a a ?r qs \<longrightarrow> length qs \<le> length ?ps"
    by (simp_all add: level_snakes_def maximum_chain_def)
  from longest diagonal_chain [of a p, OF assms(1)] have "length (map (\<lambda>k. (int k, int k)) [0..<length a]) \<le> length ?ps"
    by blast
  then have long: "length a \<le> length ?ps" by simp
  have "?ps = map (\<lambda>k. (0 + int k, 0 + int k)) [0..<length a]"
    by (rule chain_full_diagonal [OF _ long]) (use chain in simp)
  from cover_from_pairs [OF positive this] have cover: "diagonal_cover 0 (int (length a)) found"
    by simp
  have "snakes = found"
    using cover _ fill by (rule fill_cover) (rule multilevel_snakes_empty)
  with cover show ?thesis by simp
qed

subsection \<open>What the contract gives for any two cell lists\<close>

lemma snakes_in_lower:
  assumes "snakes_in (i, j, i1, j1) ss" and "i0 \<le> i" and "j0 \<le> j"
  shows "snakes_in (i0, j0, i1, j1) ss"
proof (cases ss)
  case Nil
  with assms show ?thesis by simp
next
  case (Cons s t)
  obtain i' j' n where "s = (i', j', n)" by (cases s)
  with Cons assms show ?thesis by simp
qed

lemma snakes_in_append:
  assumes "snakes_in (i0, j0, i, j) xs" and "snakes_in (i, j, i1, j1) ys"
    and "i \<le> i1" and "j \<le> j1"
  shows "snakes_in (i0, j0, i1, j1) (xs @ ys)"
  using assms(1)
proof (induction xs arbitrary: i0 j0)
  case Nil
  then have "i0 \<le> i" "j0 \<le> j" by simp_all
  with assms(2) show ?case by (simp add: snakes_in_lower)
next
  case (Cons s t)
  obtain i' j' n where s: "s = (i', j', n)" by (cases s)
  from Cons.prems s have here: "i0 \<le> i'" "j0 \<le> j'" "0 \<le> n" "i' + n \<le> i" "j' + n \<le> j"
    and t: "snakes_in (i' + n, j' + n, i, j) t"
    by simp_all
  from Cons.IH [OF t] here assms(3,4) show ?case by (simp add: s)
qed

lemma found_in:
  assumes "list_all (\<lambda>(i, j, n). 0 < n) found"
    and "chain p a b (i0, j0, i1, j1) (concat (map snake_pairs found))"
    and "i0 \<le> i1" and "j0 \<le> j1"
  shows "snakes_in (i0, j0, i1, j1) found"
  using assms
proof (induction found arbitrary: i0 j0)
  case Nil
  then show ?case by simp
next
  case (Cons s t)
  obtain i j n where s: "s = (i, j, n)" by (cases s)
  from Cons.prems(1) s have n: "0 < n" and t: "list_all (\<lambda>(i, j, n). 0 < n) t"
    by simp_all
  define later where "later = concat (map snake_pairs t)"
  define here where "here = snake_pairs (i, j, n)"
  have pairs: "concat (map snake_pairs (s # t)) = here @ later"
    by (simp add: s here_def later_def)
  from Cons.prems(2) have inside: "\<And>i' j'. (i', j') \<in> set (here @ later) \<Longrightarrow>
      i0 \<le> i' \<and> i' < i1 \<and> j0 \<le> j' \<and> j' < j1 \<and> holds_at p a b i' j'"
    and sorted: "sorted_wrt (\<lambda>(i, j) (i', j'). i < i' \<and> j < j') (here @ later)"
    unfolding pairs chain_def list_all_iff by auto
  have first: "(i, j) \<in> set here"
  proof -
    have "0 \<in> set [0..<nat n]" using n by simp
    then have "(\<lambda>k. (i + int k, j + int k)) 0 \<in> (\<lambda>k. (i + int k, j + int k)) ` set [0..<nat n]"
      by (rule imageI)
    then show ?thesis by (simp add: here_def snake_pairs_upt)
  qed
  have last: "(i + (n - 1), j + (n - 1)) \<in> set here"
  proof -
    have "nat n - 1 \<in> set [0..<nat n]" using n by simp
    then have "(\<lambda>k. (i + int k, j + int k)) (nat n - 1) \<in> (\<lambda>k. (i + int k, j + int k)) ` set [0..<nat n]"
      by (rule imageI)
    moreover have "int (nat n - 1) = n - 1" using n by simp
    ultimately show ?thesis by (simp add: here_def snake_pairs_upt del: set_upt)
  qed
  from first have "(i, j) \<in> set (here @ later)" by simp
  from inside [OF this] have lower: "i0 \<le> i" "j0 \<le> j"
    by simp_all
  from last have "(i + (n - 1), j + (n - 1)) \<in> set (here @ later)" by simp
  from inside [OF this] have upper: "i + n \<le> i1" "j + n \<le> j1"
    by simp_all
  have after: "i + n \<le> i' \<and> j + n \<le> j'" if "(i', j') \<in> set later" for i' j'
  proof -
    from sorted have "\<forall>x \<in> set here. \<forall>y \<in> set later.
        (case x of (i, j) \<Rightarrow> \<lambda>(i', j'). i < i' \<and> j < j') y"
      by (simp add: sorted_wrt_append)
    with last that have "(case (i + (n - 1), j + (n - 1)) of (i, j) \<Rightarrow> \<lambda>(i', j'). i < i' \<and> j < j') (i', j')"
      by blast
    then show ?thesis by simp
  qed
  have "chain p a b (i + n, j + n, i1, j1) later"
  proof -
    have "list_all (\<lambda>(i', j'). i + n \<le> i' \<and> i' < i1 \<and> j + n \<le> j' \<and> j' < j1 \<and> holds_at p a b i' j') later"
      unfolding list_all_iff
    proof
      fix x assume x: "x \<in> set later"
      obtain i' j' where ij: "x = (i', j')" by (cases x)
      from x ij have "(i', j') \<in> set (here @ later)" by simp
      from inside [OF this] after [of i' j'] x ij
      show "case x of (i', j') \<Rightarrow> i + n \<le> i' \<and> i' < i1 \<and> j + n \<le> j' \<and> j' < j1 \<and> holds_at p a b i' j'"
        by simp
    qed
    moreover have "sorted_wrt (\<lambda>(i, j) (i', j'). i < i' \<and> j < j') later"
      using sorted by (simp add: sorted_wrt_append)
    ultimately show ?thesis by (simp add: chain_def)
  qed
  then have "chain p a b (i + n, j + n, i1, j1) (concat (map snake_pairs t))"
    by (simp only: later_def)
  from Cons.IH [OF t this upper] have "snakes_in (i + n, j + n, i1, j1) t" .
  with lower upper n show ?case by (simp add: s)
qed

lemma fill_in:
  assumes "snakes_in r found"
    and "\<And>r' result'. snakes_in r' [] \<Longrightarrow> deeper r' result' \<Longrightarrow> snakes_in r' result'"
    and "fill deeper r found result"
  shows "snakes_in r result"
  using assms(1,3)
proof (induction found arbitrary: r result)
  case Nil
  obtain i0 j0 i1 j1 where r: "r = (i0, j0, i1, j1)" by (cases r)
  from Nil r have "deeper r result" by simp
  with Nil.prems(1) assms(2) show ?case by blast
next
  case (Cons s t)
  obtain i0 j0 i1 j1 where r: "r = (i0, j0, i1, j1)" by (cases r)
  obtain i j n where s: "s = (i, j, n)" by (cases s)
  from Cons.prems(1) r s have here: "i0 \<le> i" "j0 \<le> j" "0 \<le> n" "i + n \<le> i1" "j + n \<le> j1"
    and t: "snakes_in (i + n, j + n, i1, j1) t"
    by simp_all
  from Cons.prems(2) r s obtain gap rest where
    result: "result = gap @ (i, j, n) # rest"
    and gap: "deeper (i0, j0, i, j) gap"
    and rest: "fill deeper (i + n, j + n, i1, j1) t rest"
    by auto
  have "snakes_in (i0, j0, i, j) []" using here by simp
  from assms(2) [OF this gap] have gap_in: "snakes_in (i0, j0, i, j) gap" .
  from Cons.IH [OF t rest] have "snakes_in (i + n, j + n, i1, j1) rest" .
  with here have "snakes_in (i, j, i1, j1) ((i, j, n) # rest)" by simp
  from snakes_in_append [OF gap_in this] here show ?case
    by (simp add: r result)
qed

text \<open>The invariant of section 4.3: the snakes follow one another inside the rectangle.\<close>

lemma multilevel_snakes_in:
  assumes "snakes_in r []" and "multilevel_snakes ps a b l r result"
  shows "snakes_in r result"
  using assms
proof (induction l arbitrary: r result)
  case 0
  then show ?case by simp
next
  case (Suc l)
  show ?case
  proof (cases "rect_empty r")
    case True
    with Suc.prems show ?thesis by simp
  next
    case False
    with Suc.prems(2) obtain found where
      found: "level_snakes (ps ! l) a b r found"
      and fill: "fill (multilevel_snakes ps a b l) r found result"
      by auto
    obtain i0 j0 i1 j1 where r: "r = (i0, j0, i1, j1)" by (cases r)
    from Suc.prems(1) r have proper: "i0 \<le> i1" "j0 \<le> j1" by simp_all
    from found r have "list_all (\<lambda>(i, j, n). 0 < n) found"
      and "chain (ps ! l) a b (i0, j0, i1, j1) (concat (map snake_pairs found))"
      by (simp_all add: level_snakes_def maximum_chain_def)
    then have "snakes_in (i0, j0, i1, j1) found"
      using proper by (rule found_in)
    then have "snakes_in r found" by (simp add: r)
    then show ?thesis
      using _ fill by (rule fill_in) (rule Suc.IH)
  qed
qed

lemma gather_empty_all:
  assumes "gather ps = Inr []"
  shows "\<forall>p \<in> set ps. p = Inr []"
  using assms
proof (induction ps)
  case Nil
  show ?case by simp
next
  case (Cons p ps)
  from Cons.prems obtain xs ys where "p = Inr xs" "gather ps = Inr ys" "[] = xs @ ys"
    by (auto simp: gather_Cons_Inr simp del: gather.simps)
  with Cons.IH show ?case by simp
qed

lemma pair_entries_empty:
  assumes "differ_contract gdiff" and "pair_entries gdiff a b p q = Inr []"
    and "0 \<le> p" and "p < int (length a)" and "0 \<le> q" and "q < int (length b)"
  shows "a ! nat p = b ! nat q"
proof -
  from assms(2-6) obtain cd where "gdiff (a ! nat p) (b ! nat q) = Inr cd"
    and "(if cd = [] then [] else [PATCH (IKey p) cd]) = []"
    by (auto simp: pair_entries_def py_index_in_range bind_err_simps bind_err_Inr_iff)
  then have "gdiff (a ! nat p) (b ! nat q) = Inr []"
    by (auto split: if_splits)
  with assms(1) show ?thesis by (simp add: differ_contract_def)
qed

lemma drop_equal_step:
  assumes "\<forall>k < n. a ! (i + k) = b ! (j + k)"
    and "drop (i + n) a = drop (j + n) b"
    and "i + n \<le> length a" and "j + n \<le> length b"
  shows "drop i a = drop j b"
proof -
  have "take n (drop i a) = take n (drop j b)"
  proof (rule nth_equalityI)
    show "length (take n (drop i a)) = length (take n (drop j b))"
      using assms(3,4) by simp
    fix k assume "k < length (take n (drop i a))"
    then have "k < n" by simp
    with assms(1,3,4) show "take n (drop i a) ! k = take n (drop j b) ! k"
      by simp
  qed
  moreover have "drop n (drop i a) = drop n (drop j b)"
    using assms(2) by (simp add: add.commute)
  ultimately show ?thesis
    by (metis append_take_drop_id)
qed

text \<open>
  An empty script from snakes inside the rectangle: no gap, and every cell of A equal to
  the cell of B at the same place.
\<close>

lemma walk_equal:
  assumes "differ_contract gdiff"
    and "snakes_in (i0, j0, int (length a), int (length b)) ss" and "0 \<le> i0" and "0 \<le> j0"
    and "gather (spec_pieces gdiff a b i0 j0 (ss @ [(int (length a), int (length b), 0)])) = Inr []"
  shows "drop (nat i0) a = drop (nat j0) b"
  using assms(2-5)
proof (induction ss arbitrary: i0 j0)
  case Nil
  from Nil.prems(4) have "gap_entries b i0 j0 (int (length a)) (int (length b)) = []"
    by (auto simp: gather_Cons_Inr simp del: gather.simps)
  then have "\<not> i0 < int (length a)" and "\<not> j0 < int (length b)"
    by (auto simp: gap_entries_def split: if_splits)
  then show ?case by simp
next
  case (Cons s t)
  obtain i j n where s: "s = (i, j, n)" by (cases s)
  from Cons.prems(1) s have here: "i0 \<le> i" "j0 \<le> j" "0 \<le> n"
    "i + n \<le> int (length a)" "j + n \<le> int (length b)"
    and t: "snakes_in (i + n, j + n, int (length a), int (length b)) t"
    by simp_all
  from Cons.prems(4) s obtain ps ys where
    gap: "gap_entries b i0 j0 i j = []"
    and ps: "gather (map (\<lambda>k. pair_entries gdiff a b (i + k) (j + k)) (py_range n)) = Inr ps"
    and ys: "gather (spec_pieces gdiff a b (i + n) (j + n) (t @ [(int (length a), int (length b), 0)])) = Inr ys"
    and nil: "ps @ ys = []"
    by (auto simp: gather_Cons_Inr gather_append_Inr simp del: gather.simps)
  from gap here have ij: "i = i0" "j = j0"
    by (auto simp: gap_entries_def split: if_splits)
  from nil ps have "\<forall>p \<in> set (map (\<lambda>k. pair_entries gdiff a b (i + k) (j + k)) (py_range n)). p = Inr []"
    by (intro gather_empty_all) simp
  then have pairs: "pair_entries gdiff a b (i + k) (j + k) = Inr []" if "0 \<le> k" "k < n" for k
    using that by (simp add: set_py_range)
  have same: "\<forall>k < nat n. a ! (nat i + k) = b ! (nat j + k)"
  proof (intro allI impI)
    fix k assume "k < nat n"
    then have k: "0 \<le> int k" "int k < n" by simp_all
    have "a ! nat (i + int k) = b ! nat (j + int k)"
      using assms(1) pairs [OF k] by (rule pair_entries_empty) (use k here ij Cons.prems(2,3) in auto)
    moreover have "nat (i + int k) = nat i + k" "nat (j + int k) = nat j + k"
      using ij Cons.prems(2,3) by (simp_all add: nat_add_distrib)
    ultimately show "a ! (nat i + k) = b ! (nat j + k)" by simp
  qed
  from nil ys have "gather (spec_pieces gdiff a b (i + n) (j + n) (t @ [(int (length a), int (length b), 0)])) = Inr []"
    by simp
  from Cons.IH [OF t _ _ this] have "drop (nat (i + n)) a = drop (nat (j + n)) b"
    using ij here Cons.prems(2,3) by simp
  then have rest: "drop (nat i + nat n) a = drop (nat j + nat n) b"
    using ij here Cons.prems(2,3) by (simp add: nat_add_distrib)
  have "drop (nat i) a = drop (nat j) b"
    using same rest by (rule drop_equal_step) (use ij here Cons.prems(2,3) in linarith)+
  with ij show ?case by simp
qed

subsection \<open>The empty script\<close>

lemma diff_from_snakes_pieces:
  "diff_from_snakes gdiff a b snakes
     = gather (spec_pieces gdiff a b 0 0 (snakes @ [(int (length a), int (length b), 0)]))"
  by (simp add: diff_from_snakes_def snake_loop_pieces bind_err_return Let_def)

lemma predicates_top: "predicates sm ! 2 = compare_cell_source_and_outputs"
  and predicates_level: "int (length (predicates sm)) - 1 = 2"
  by (simp_all add: predicates_def)

lemma diff_cells_empty_iff:
  assumes "differ_contract gdiff"
    and "list_all well_formed_cell a"
    and "snake_contract csm (predicates sm) a b (0, 0, int (length a), int (length b))
           (int (length (predicates sm)) - 1)"
  shows "diff_cells sm csm gdiff a b = Inr [] \<longleftrightarrow> a = b"
proof -
  let ?r = "(0, 0, int (length a), int (length b))"
  from assms(3) obtain snakes where
    call: "csm a b ?r (predicates sm) 2 = Inr snakes"
    and allowed: "multilevel_snakes (predicates sm) a b (Suc 2) ?r snakes"
    by (auto simp: snake_contract_def predicates_level eval_nat_numeral)
  have cells: "diff_cells sm csm gdiff a b
      = gather (spec_pieces gdiff a b 0 0 (snakes @ [(int (length a), int (length b), 0)]))"
    using call by (simp add: diff_cells_def predicates_level bind_err_simps diff_from_snakes_pieces)
  show ?thesis
  proof
    assume "diff_cells sm csm gdiff a b = Inr []"
    with cells have empty: "gather (spec_pieces gdiff a b 0 0 (snakes @ [(int (length a), int (length b), 0)])) = Inr []"
      by simp
    have "snakes_in ?r snakes"
      by (rule multilevel_snakes_in [OF _ allowed]) simp
    from walk_equal [OF assms(1) this _ _ empty] show "a = b" by simp
  next
    assume same: "a = b"
    have refl: "\<forall>x \<in> set a. compare_cell_source_and_outputs x x = Inr True"
      using assms(2) by (auto simp: list_all_iff and_outputs_refl)
    from allowed same have "multilevel_snakes (predicates sm) a a (Suc 2) (0, 0, int (length a), int (length a)) snakes"
      by simp
    from identical_cells_snakes [OF refl this predicates_top]
    have cover: "diagonal_cover 0 (int (length a)) snakes" .
    have "\<forall>x. gdiff x x = Inr []"
      using assms(1) by (simp add: differ_contract_def)
    from walk_cover [of gdiff 0 a snakes, OF this cover] cells same show "diff_cells sm csm gdiff a b = Inr []"
      by simp
  qed
qed

lemma notebooks_equal_iff:
  assumes "fmlookup nba ''cells'' = Some (JList a)" and "fmlookup nbb ''cells'' = Some (JList b)"
  shows "nba = nbb \<longleftrightarrow> fmdrop ''cells'' nba = fmdrop ''cells'' nbb \<and> a = b"
proof
  assume "nba = nbb"
  with assms show "fmdrop ''cells'' nba = fmdrop ''cells'' nbb \<and> a = b" by simp
next
  assume h: "fmdrop ''cells'' nba = fmdrop ''cells'' nbb \<and> a = b"
  show "nba = nbb"
  proof (rule fmap_ext)
    fix k
    show "fmlookup nba k = fmlookup nbb k"
    proof (cases "k = ''cells''")
      case True
      with assms h show ?thesis by simp
    next
      case False
      from h have "fmlookup (fmdrop ''cells'' nba) k = fmlookup (fmdrop ''cells'' nbb) k"
        by simp
      with False show ?thesis by simp
    qed
  qed
qed

text \<open>
  The contract can be met: for a list of cells against itself, the single snake along the
  whole diagonal is allowed.
\<close>

lemma diagonal_snake_allowed:
  assumes "a \<noteq> []" and "\<forall>x \<in> set a. (ps ! l) x x = Inr True"
  shows "multilevel_snakes ps a a (Suc l) (0, 0, int (length a), int (length a))
           [(0, 0, int (length a))]"
proof -
  let ?n = "int (length a)"
  let ?r = "(0, 0, ?n, ?n)"
  have pairs: "concat (map snake_pairs [(0, 0, ?n)]) = map (\<lambda>k. (int k, int k)) [0..<length a]"
    by (simp add: snake_pairs_upt)
  have chain: "chain (ps ! l) a a ?r (map (\<lambda>k. (int k, int k)) [0..<length a])"
    by (rule diagonal_chain [of a "ps ! l", OF assms(2)])
  have longest: "length qs \<le> length (map (\<lambda>k. (int k, int k)) [0..<length a])"
    if "chain (ps ! l) a a ?r qs" for qs
    using chain_length [OF that] by simp
  have nonempty: "\<not> rect_empty ?r"
    using assms(1) by (simp add: rect_empty_def)
  have "level_snakes (ps ! l) a a ?r [(0, 0, ?n)]"
    unfolding level_snakes_def maximum_chain_def pairs
    using assms(1) chain longest by simp
  moreover have "fill (multilevel_snakes ps a a l) ?r [(0, 0, ?n)] [(0, 0, ?n)]"
  proof -
    have empty: "multilevel_snakes ps a a l (c, c, c, c) []" for c
      by (cases l) (simp_all add: rect_empty_def)
    have "[(0, 0, ?n)] = [] @ (0, 0, ?n) # []" by simp
    with empty [of 0] empty [of ?n] show ?thesis
      by (simp del: append.simps) blast
  qed
  ultimately have "\<exists>found. level_snakes (ps ! l) a a ?r found
      \<and> fill (multilevel_snakes ps a a l) ?r found [(0, 0, ?n)]"
    by blast
  with nonempty show ?thesis
    by (simp only: multilevel_snakes.simps if_False)
qed

text \<open>
  The contract can be met for cell lists without any match as well: when no predicate is
  true of any pair of cells, the empty list of snakes is allowed.
\<close>

lemma py_index_member:
  assumes "py_index xs i = Inr x"
  shows "x \<in> set xs"
proof -
  from assms have "x = xs ! nat i \<and> nat i < length xs
      \<or> x = xs ! nat (i + int (length xs)) \<and> nat (i + int (length xs)) < length xs"
    by (auto simp: py_index_def split: if_splits)
  then show ?thesis by auto
qed

lemma holds_at_member:
  assumes "holds_at p a b i j"
  shows "\<exists>x \<in> set a. \<exists>y \<in> set b. p x y = Inr True"
proof -
  from assms obtain x y where x: "py_index a i = Inr x" and y: "py_index b j = Inr y"
    and p: "p x y = Inr True"
    by (auto simp: holds_at_def split: sum.splits)
  from py_index_member [OF x] py_index_member [OF y] p show ?thesis
    by (intro bexI)
qed

lemma no_match_level:
  assumes "\<forall>x \<in> set a. \<forall>y \<in> set b. p x y \<noteq> Inr True"
  shows "level_snakes p a b r []"
proof -
  obtain i0 j0 i1 j1 where r: "r = (i0, j0, i1, j1)" by (cases r)
  have "qs = []" if "chain p a b r qs" for qs
  proof (cases qs)
    case Nil
    then show ?thesis .
  next
    case (Cons q qs')
    obtain i j where "q = (i, j)" by (cases q)
    with that Cons r have "holds_at p a b i j" by (simp add: chain_def)
    from holds_at_member [OF this] obtain x y where x: "x \<in> set a" and y: "y \<in> set b"
      and p: "p x y = Inr True"
      by (elim bexE)
    from assms x have "\<forall>y \<in> set b. p x y \<noteq> Inr True"
      by (rule bspec)
    from this y have "p x y \<noteq> Inr True"
      by (rule bspec)
    with p show ?thesis by simp
  qed
  then have "\<forall>qs. chain p a b r qs \<longrightarrow> length qs \<le> length ([] :: (int \<times> int) list)"
    by auto
  moreover have "chain p a b r []" by (simp add: chain_def r)
  ultimately show ?thesis by (simp add: level_snakes_def maximum_chain_def)
qed

lemma no_match_allowed:
  assumes "\<forall>l < m. \<forall>x \<in> set a. \<forall>y \<in> set b. (ps ! l) x y \<noteq> Inr True"
  shows "multilevel_snakes ps a b m r []"
  using assms
proof (induction m arbitrary: r)
  case 0
  show ?case by simp
next
  case (Suc m)
  obtain i0 j0 i1 j1 where r: "r = (i0, j0, i1, j1)" by (cases r)
  have "level_snakes (ps ! m) a b r []"
    by (rule no_match_level) (use Suc.prems in simp)
  moreover have "fill (multilevel_snakes ps a b m) r [] []"
    using Suc.IH [of r] Suc.prems by (simp add: r)
  ultimately show ?case by auto
qed

text \<open>
  Claim C1. Let the generic differ and the snake computer meet their contracts (sections
  4.2 and 4.3) at the call. For well-formed documents, \<^verbatim>\<open>diff_notebooks\<close> returns the
  empty script if and only if the two documents are equal; in particular
  \<^verbatim>\<open>diff_notebooks(D, D)\<close> is empty for every well-formed document \<open>D\<close>.
\<close>

theorem diff_notebooks_empty_iff:
  assumes "differ_contract gdiff"
    and "well_formed_document nba" and "well_formed_document nbb"
    and "fmlookup nba ''cells'' = Some (JList a)" and "fmlookup nbb ''cells'' = Some (JList b)"
    and "snake_contract csm (predicates sm) a b (0, 0, int (length a), int (length b))
           (int (length (predicates sm)) - 1)"
  shows "(diff_notebooks sm csm gdiff nba nbb = Inr [] \<longleftrightarrow> nba = nbb)
     \<and> (nba = nbb \<longrightarrow> diff_notebooks sm csm gdiff nba nba = Inr [])"
proof -
  from assms(2,4) have wf: "list_all well_formed_cell a"
    by (simp add: well_formed_document_def)
  have cells: "diff_cells sm csm gdiff a b = Inr [] \<longleftrightarrow> a = b"
    by (rule diff_cells_empty_iff [OF assms(1) wf assms(6)])
  have rest: "gdiff (JDict (fmdrop ''cells'' nba)) (JDict (fmdrop ''cells'' nbb)) = Inr []
      \<longleftrightarrow> fmdrop ''cells'' nba = fmdrop ''cells'' nbb"
    using assms(1) by (simp add: differ_contract_def)
  have unfold: "diff_notebooks sm csm gdiff nba nbb =
      bind_err (gdiff (JDict (fmdrop ''cells'' nba)) (JDict (fmdrop ''cells'' nbb))) (\<lambda>nbdiff.
      bind_err (diff_cells sm csm gdiff a b) (\<lambda>cdiff.
      Inr (if cdiff \<noteq> [] then nbdiff @ [PATCH (SKey ''cells'') cdiff] else nbdiff)))"
    using assms(4,5) by (simp add: diff_notebooks_def pop_def bind_err_simps)
  have "diff_notebooks sm csm gdiff nba nbb = Inr []
      \<longleftrightarrow> gdiff (JDict (fmdrop ''cells'' nba)) (JDict (fmdrop ''cells'' nbb)) = Inr []
          \<and> diff_cells sm csm gdiff a b = Inr []"
    unfolding unfold by (auto simp: bind_err_Inr_iff split: if_splits)
  also have "\<dots> \<longleftrightarrow> fmdrop ''cells'' nba = fmdrop ''cells'' nbb \<and> a = b"
    using rest cells by simp
  also have "\<dots> \<longleftrightarrow> nba = nbb"
    by (rule notebooks_equal_iff [OF assms(4,5), symmetric])
  finally have iff: "diff_notebooks sm csm gdiff nba nbb = Inr [] \<longleftrightarrow> nba = nbb" .
  then show ?thesis by auto
qed

text \<open>
  Two instances. A notebook of a markdown cell and a code cell against itself, with a snake
  computer that answers the snake \<open>(0, 0, 2)\<close>: the script is empty. A notebook of one
  markdown cell against a notebook of one code cell, with a snake computer that answers no
  snake: the documents differ and the script is not empty.
\<close>

theorem diff_notebooks_empty_iff_witness:
  "differ_contract stub_differ
   \<and> well_formed_document (notebook [markdown_cell (JStr ''# Title''), code_cell (JStr ''x = 1'') (JList [])])
   \<and> snake_contract (\<lambda>a b r ps l. Inr [(0, 0, 2)]) (predicates (fixed_matcher 1 1 1))
        [markdown_cell (JStr ''# Title''), code_cell (JStr ''x = 1'') (JList [])]
        [markdown_cell (JStr ''# Title''), code_cell (JStr ''x = 1'') (JList [])]
        (0, 0, 2, 2) 2
   \<and> diff_notebooks (fixed_matcher 1 1 1) (\<lambda>a b r ps l. Inr [(0, 0, 2)]) stub_differ
        (notebook [markdown_cell (JStr ''# Title''), code_cell (JStr ''x = 1'') (JList [])])
        (notebook [markdown_cell (JStr ''# Title''), code_cell (JStr ''x = 1'') (JList [])])
       = Inr []
   \<and> well_formed_document (notebook [markdown_cell (JStr ''x = 1'')])
   \<and> well_formed_document (notebook [code_cell (JStr ''x = 1'') (JList [])])
   \<and> snake_contract (\<lambda>a b r ps l. Inr []) (predicates (fixed_matcher 1 1 1))
        [markdown_cell (JStr ''x = 1'')] [code_cell (JStr ''x = 1'') (JList [])] (0, 0, 1, 1) 2
   \<and> notebook [markdown_cell (JStr ''x = 1'')] \<noteq> notebook [code_cell (JStr ''x = 1'') (JList [])]
   \<and> diff_notebooks (fixed_matcher 1 1 1) (\<lambda>a b r ps l. Inr []) stub_differ
        (notebook [markdown_cell (JStr ''x = 1'')]) (notebook [code_cell (JStr ''x = 1'') (JList [])])
       \<noteq> Inr []"
proof -
  let ?cells = "[markdown_cell (JStr ''# Title''), code_cell (JStr ''x = 1'') (JList [])]"
  let ?nb = "notebook ?cells"
  let ?sm = "fixed_matcher 1 1 1"
  let ?csm = "(\<lambda>a b r ps l. Inr [(0, 0, 2)]) :: snake_computer"
  have differ: "differ_contract stub_differ"
    by (auto simp: differ_contract_def stub_differ_def)
  have wf_cells: "list_all well_formed_cell ?cells"
    by (simp add: cell_eval)
  have cells: "fmlookup ?nb ''cells'' = Some (JList ?cells)"
    by (simp add: notebook_def fmlookup_of_list)
  have wf: "well_formed_document ?nb"
    using wf_cells by (simp add: well_formed_document_def cells)
  have refl: "\<forall>x \<in> set ?cells. (predicates ?sm ! 2) x x = Inr True"
    using wf_cells unfolding predicates_top list_all_iff by (blast intro: and_outputs_refl)
  have "multilevel_snakes (predicates ?sm) ?cells ?cells (Suc 2)
      (0, 0, int (length ?cells), int (length ?cells)) [(0, 0, int (length ?cells))]"
    by (rule diagonal_snake_allowed [OF _ refl]) simp
  then have allowed: "multilevel_snakes (predicates ?sm) ?cells ?cells (Suc 2) (0, 0, 2, 2) [(0, 0, 2)]"
    by simp
  have contract: "snake_contract ?csm (predicates ?sm) ?cells ?cells
      (0, 0, int (length ?cells), int (length ?cells)) (int (length (predicates ?sm)) - 1)"
    unfolding snake_contract_def predicates_level using allowed
    by (simp add: eval_nat_numeral)
  then have contract2: "snake_contract ?csm (predicates ?sm) ?cells ?cells (0, 0, 2, 2) 2"
    by (simp add: predicates_level)
  from diff_notebooks_empty_iff [OF differ wf wf cells cells contract]
  have same: "diff_notebooks ?sm ?csm stub_differ ?nb ?nb = Inr []"
    by blast
  let ?a = "[markdown_cell (JStr ''x = 1'')]"
  let ?b = "[code_cell (JStr ''x = 1'') (JList [])]"
  let ?none = "(\<lambda>a b r ps l. Inr []) :: snake_computer"
  have cells_a: "fmlookup (notebook ?a) ''cells'' = Some (JList ?a)"
    and cells_b: "fmlookup (notebook ?b) ''cells'' = Some (JList ?b)"
    by (simp_all add: notebook_def fmlookup_of_list)
  have wf_cells_a: "list_all well_formed_cell ?a" and wf_cells_b: "list_all well_formed_cell ?b"
    by (simp_all add: cell_eval)
  have wf_a: "well_formed_document (notebook ?a)"
    using wf_cells_a by (simp add: well_formed_document_def cells_a)
  have wf_b: "well_formed_document (notebook ?b)"
    using wf_cells_b by (simp add: well_formed_document_def cells_b)
  have types: "getitem (markdown_cell (JStr ''x = 1'')) ''cell_type'' = Inr (JStr ''markdown'')"
    "getitem (code_cell (JStr ''x = 1'') (JList [])) ''cell_type'' = Inr (JStr ''code'')"
    by (simp_all add: cell_eval)
  have unmatched: "\<forall>l < Suc 2. \<forall>x \<in> set ?a. \<forall>y \<in> set ?b. (predicates ?sm ! l) x y \<noteq> Inr True"
    using approximate_types_differ [OF types, of ?sm] exact_types_differ [OF types]
      and_outputs_types_differ [OF types]
    by (auto simp: predicates_def less_Suc_eq eval_nat_numeral)
  have "multilevel_snakes (predicates ?sm) ?a ?b (Suc 2) (0, 0, int (length ?a), int (length ?b)) []"
    by (rule no_match_allowed [OF unmatched])
  then have contract_ab: "snake_contract ?none (predicates ?sm) ?a ?b
      (0, 0, int (length ?a), int (length ?b)) (int (length (predicates ?sm)) - 1)"
    unfolding snake_contract_def predicates_level by (simp add: eval_nat_numeral)
  then have contract_ab2: "snake_contract ?none (predicates ?sm) ?a ?b (0, 0, 1, 1) 2"
    by (simp add: predicates_level)
  have "fmlookup (notebook ?a) ''cells'' \<noteq> fmlookup (notebook ?b) ''cells''"
  proof -
    have "getitem (markdown_cell (JStr ''x = 1'')) ''cell_type''
        \<noteq> getitem (code_cell (JStr ''x = 1'') (JList [])) ''cell_type''"
      by (simp add: types)
    then have "markdown_cell (JStr ''x = 1'') \<noteq> code_cell (JStr ''x = 1'') (JList [])"
      by auto
    then show ?thesis by (simp add: cells_a cells_b)
  qed
  then have unequal: "notebook ?a \<noteq> notebook ?b" by auto
  from diff_notebooks_empty_iff [OF differ wf_a wf_b cells_a cells_b contract_ab] unequal
  have other: "diff_notebooks ?sm ?none stub_differ (notebook ?a) (notebook ?b) \<noteq> Inr []"
    by blast
  from differ wf contract2 same wf_a wf_b contract_ab2 unequal other show ?thesis
    by blast
qed

section \<open>Properties of the file name display\<close>

text \<open>
  Claim C10. For every name, \<^verbatim>\<open>truncate_filename(name)\<close> has at most 20 characters;
  a name of fewer than 20 characters is returned unchanged; every other name, a name of
  exactly 20 characters included, is returned as its first 17 characters followed by three
  dots.
\<close>

theorem truncate_filename_spec:
  "length (truncate_filename name) \<le> 20
   \<and> (length name < 20 \<longrightarrow> truncate_filename name = name)
   \<and> (\<not> length name < 20 \<longrightarrow> truncate_filename name = take 17 name @ ''...'')"
  by (simp add: truncate_filename_def)

theorem truncate_filename_spec_witness:
  "length ''notebook.ipynb'' < 20
   \<and> truncate_filename ''notebook.ipynb'' = ''notebook.ipynb''
   \<and> \<not> length ''abcdefghijklmnopqrst'' < 20
   \<and> truncate_filename ''abcdefghijklmnopqrst'' = ''abcdefghijklmnopq...''
   \<and> length (truncate_filename ''abcdefghijklmnopqrst'') \<le> 20"
  using truncate_filename_spec [of "''notebook.ipynb''"]
    truncate_filename_spec [of "''abcdefghijklmnopqrst''"]
  by simp

end
